theory Spec2Isabelle
  imports Main "HOL-Library.Sublist"
begin

section \<open>Organization releases endpoint: the creation path\<close>

text \<open>
  The development embeds \<^verbatim>\<open>OrganizationReleasesEndpoint.post\<close> of
  \<^verbatim>\<open>src/sentry/api/endpoints/organization_releases.py\<close>. The handler is one
  sequential Python function that talks to a database, a lock service and a task queue.
  The database tables are lists of rows in primary-key order, every exception is a value
  of \<open>exn\<close>, and the handler returns its outcome together with the store it leaves
  behind: an atomic block of the linking loop rolls back its own insert when that
  insert fails, and nothing rolls back what an earlier statement committed.
\<close>

subsection \<open>Data model\<close>

type_synonym datetime = nat

text \<open>A row of the Release table, with the columns the handler passes to \<^verbatim>\<open>create\<close>.\<close>

record release =
  release_id :: nat
  organization_id :: nat
  version :: string
  ref :: "string option"
  url :: "string option"
  owner :: "nat option"
  date_started :: "datetime option"
  date_released :: "datetime option"

text \<open>A row of the Project table; projects exist beforehand and are only read.\<close>

record project =
  project_id :: nat
  project_organization :: nat
  slug :: string

datatype activity_type = RELEASE

text \<open>The arguments of \<^verbatim>\<open>Activity.objects.create\<close> (lines 156-162).\<close>

record activity =
  activity_type :: activity_type
  activity_project :: nat
  ident :: string
  data :: "(string \<times> string) list"
  activity_datetime :: datetime

text \<open>
  \<^verbatim>\<open>serializer.object\<close>: the validated request. \<^verbatim>\<open>result['version']\<close> and
  \<^verbatim>\<open>result['projects']\<close> are always present, the keys read with \<^verbatim>\<open>result.get\<close>
  may be absent (\<open>None\<close>).
\<close>

record result =
  result_version :: string
  result_ref :: "string option"
  result_url :: "string option"
  result_owner :: "nat option"
  result_dateStarted :: "datetime option"
  result_dateReleased :: "datetime option"
  result_projects :: "string list"
  result_commits :: "string list option"

text \<open>
  The serializer is not part of the handler: its verdict is an input, either the
  validation errors or the validated object.
\<close>

datatype serializer = Invalid "(string \<times> string list) list" | Valid result

datatype exn =
    IntegrityError
  | DoesNotExist
  | MultipleObjectsReturned
  | LockUnavailable
  | LockTimeout
  | Failure string

text \<open>
  Modelled from the spec: \<^verbatim>\<open>Release.get_lock_key\<close> is not in the source file; the
  spec asks that the key uniquely encodes (tenant, version), so the key is the pair.
\<close>

type_synonym lock_key = "nat \<times> string"

text \<open>\<^verbatim>\<open>locks.get(lock_key, duration=5)\<close>: a lock is its key and its duration.\<close>

datatype lock = Lock lock_key nat

text \<open>
  The trace of a call, in the order things happen: the lock traffic; the statements on
  the Release table issued once the lock was asked for (the query of line 129 with its
  organization and version, the insert of line 134 with its row); the transaction blocks
  of the linking loop (entered, left by commit, left by rollback) and the insert
  attempted inside each (project, release); the Activity rows (an append-only table this
  handler never reads) and the notifications handed to the task queue.
\<close>

datatype effect =
    LockAttempt lock
  | LockAcquired lock
  | LockReleased lock
  | ReleaseQueried nat string
  | ReleaseInserted release
  | AtomicEntered
  | LinkInsert nat nat
  | AtomicCommitted
  | AtomicRolledBack
  | ActivityCreated activity
  | NotificationSent activity

record store =
  projects :: "project list"
  releases :: "release list"
  release_projects :: "(nat \<times> nat) list"
  release_commits :: "(nat \<times> string list) list"
  log :: "effect list"

text \<open>
  What the handler cannot decide by itself. \<open>lock_outcome k i\<close> is the outcome of
  the \<open>i\<close>-th attempt to acquire the lock \<open>k\<close> (\<open>None\<close>: acquired).
  \<open>raced_releases\<close> is what other callers commit to the Release table between this
  caller's lock-free lookup and its re-check under the lock. \<open>link_fault\<close> and
  \<open>notify_fault\<close> are failures of the database and of the task queue that do not
  depend on the store (\<open>None\<close>: no failure).
\<close>

record env =
  lock_outcome :: "lock_key \<Rightarrow> nat \<Rightarrow> exn option"
  raced_releases :: "release list \<Rightarrow> release list"
  link_fault :: "nat \<Rightarrow> nat \<Rightarrow> exn option"
  notify_fault :: "activity \<Rightarrow> exn option"

datatype body = Serialized release | Errors "(string \<times> string list) list"

datatype response = Response body nat

subsection \<open>The collaborators of the handler\<close>

text \<open>
  \<^verbatim>\<open>Project.objects.filter(organization=organization, slug__in=result['projects'])\<close>
  (lines 110-111).
\<close>

definition Project_filter :: "store \<Rightarrow> nat \<Rightarrow> string list \<Rightarrow> project list" where
  "Project_filter s org slugs =
     filter (\<lambda>p. project_organization p = org \<and> slug p \<in> set slugs) (projects s)"

definition matches :: "nat \<Rightarrow> string \<Rightarrow> release \<Rightarrow> bool" where
  "matches org v r \<longleftrightarrow> organization_id r = org \<and> version r = v"

text \<open>
  \<^verbatim>\<open>Release.objects.filter(organization_id=..., version=...).first()\<close> (lines 118-121):
  the first matching row in primary-key order, or \<open>None\<close>.
\<close>

definition Release_filter_first :: "release list \<Rightarrow> nat \<Rightarrow> string \<Rightarrow> release option" where
  "Release_filter_first rs org v = find (matches org v) rs"

text \<open>
  \<^verbatim>\<open>Release.objects.get(version=..., organization_id=...)\<close> (lines 129-132): the one
  matching row; Django raises \<^verbatim>\<open>DoesNotExist\<close> when there is none and
  \<^verbatim>\<open>MultipleObjectsReturned\<close> when there are several.
\<close>

definition Release_get :: "release list \<Rightarrow> nat \<Rightarrow> string \<Rightarrow> exn + release" where
  "Release_get rs org v =
     (case filter (matches org v) rs of
        [] \<Rightarrow> Inl DoesNotExist
      | [r] \<Rightarrow> Inr r
      | _ \<Rightarrow> Inl MultipleObjectsReturned)"

definition fresh_id :: "release list \<Rightarrow> nat" where
  "fresh_id rs = Suc (fold max (map release_id rs) 0)"

text \<open>
  The row \<^verbatim>\<open>Release.objects.create(...)\<close> writes (lines 134-142): the
  organization, the version and the five optional fields of the request, under the next
  primary key.
\<close>

definition release_row :: "release list \<Rightarrow> nat \<Rightarrow> result \<Rightarrow> release" where
  "release_row rs org res =
     \<lparr>release_id = fresh_id rs,
      organization_id = org,
      version = result_version res,
      ref = result_ref res,
      url = result_url res,
      owner = result_owner res,
      date_started = result_dateStarted res,
      date_released = result_dateReleased res\<rparr>"

text \<open>
  Modelled from the spec: the Release model behind \<^verbatim>\<open>Release.objects.create\<close>
  is not in the source file; the spec makes (tenant, version) globally unique, so the
  insert of a second row for the pair raises \<^verbatim>\<open>IntegrityError\<close>. The new row
  goes last.
\<close>

definition Release_create ::
  "release list \<Rightarrow> nat \<Rightarrow> result \<Rightarrow> exn + release \<times> release list" where
  "Release_create rs org res =
     (if \<exists>r \<in> set rs. matches org (result_version res) r then Inl IntegrityError
      else Inr (release_row rs org res, rs @ [release_row rs org res]))"

text \<open>
  Modelled from the spec: \<^verbatim>\<open>lock.acquire\<close> is not in the source file. One attempt
  either obtains the lock or fails; the spec's LockService fails with LockUnavailable
  when the lock is held.
\<close>

definition acquire :: "env \<Rightarrow> lock \<Rightarrow> nat \<Rightarrow> exn + lock" where
  "acquire env l i =
     (case l of Lock k d \<Rightarrow>
        (case lock_outcome env k i of None \<Rightarrow> Inr l | Some e \<Rightarrow> Inl e))"

text \<open>
  Modelled from the spec: \<^verbatim>\<open>TimedRetryPolicy\<close> is not in the source file, which
  only passes it the bound 10. The spec's RetryPolicy runs the operation up to
  \<open>maxAttempts\<close> times, retries only on LockUnavailable, fails with LockTimeout when
  the attempts are used up, and lets every other failure through at once. The second
  component counts the attempts made, starting from \<open>i\<close>.
\<close>

fun withRetry :: "nat \<Rightarrow> (nat \<Rightarrow> exn + 'a) \<Rightarrow> nat \<Rightarrow> (exn + 'a) \<times> nat" where
  "withRetry 0 operation i = (Inl LockTimeout, i)"
| "withRetry (Suc n) operation i =
     (case operation i of
        Inr v \<Rightarrow> (Inr v, Suc i)
      | Inl e \<Rightarrow>
          if e = LockUnavailable then withRetry n operation (Suc i)
          else (Inl e, Suc i))"

text \<open>
  Modelled from the spec: the ReleaseProject model behind
  \<^verbatim>\<open>ReleaseProject.objects.create(project=project, release=release)\<close> (line 148)
  is not in the source file; the spec makes the pair (release, sub-resource) unique, so a
  second insert of a pair raises \<^verbatim>\<open>IntegrityError\<close>. A failed insert writes no
  row.
\<close>

definition ReleaseProject_create :: "env \<Rightarrow> store \<Rightarrow> project \<Rightarrow> release \<Rightarrow> exn + store" where
  "ReleaseProject_create env s p r =
     (case link_fault env (project_id p) (release_id r) of
        Some e \<Rightarrow> Inl e
      | None \<Rightarrow>
          if (project_id p, release_id r) \<in> set (release_projects s) then Inl IntegrityError
          else Inr (s\<lparr>release_projects := release_projects s @ [(project_id p, release_id r)]\<rparr>))"

text \<open>
  Modelled from the spec: \<^verbatim>\<open>release.set_commits(commit_list)\<close> (line 167) is not
  in the source file and the spec leaves commit attachment to a collaborator; of its work
  only the list recorded against the release is kept.
\<close>

definition set_commits :: "release \<Rightarrow> string list \<Rightarrow> store \<Rightarrow> store" where
  "set_commits r cl s =
     s\<lparr>release_commits :=
         filter (\<lambda>(i, _). i \<noteq> release_id r) (release_commits s) @ [(release_id r, cl)]\<rparr>"

definition emit :: "effect list \<Rightarrow> store \<Rightarrow> store" where
  "emit es s = s\<lparr>log := log s @ es\<rparr>"

text \<open>
  \<^verbatim>\<open>with transaction.atomic():\<close> (line 147). The block is entered, its body runs,
  and the block is left by a commit when the body returns and by a rollback when it
  raises: the tables are then those the block was entered with, the trace stays, and the
  exception goes on.
\<close>

definition rollback :: "store \<Rightarrow> store \<Rightarrow> store" where
  "rollback s s' =
     s'\<lparr>projects := projects s, releases := releases s,
        release_projects := release_projects s, release_commits := release_commits s\<rparr>"

definition atomic :: "(store \<Rightarrow> (exn + 'a) \<times> store) \<Rightarrow> store \<Rightarrow> (exn + 'a) \<times> store" where
  "atomic body s =
     (case body (emit [AtomicEntered] s) of
        (Inr v, s') \<Rightarrow> (Inr v, emit [AtomicCommitted] s')
      | (Inl e, s') \<Rightarrow> (Inl e, emit [AtomicRolledBack] (rollback s s')))"

text \<open>The body of the block (line 148).\<close>

definition insert_link :: "env \<Rightarrow> project \<Rightarrow> release \<Rightarrow> store \<Rightarrow> (exn + unit) \<times> store" where
  "insert_link env p r s =
     (let s1 = emit [LinkInsert (project_id p) (release_id r)] s in
      case ReleaseProject_create env s1 p r of
        Inl e \<Rightarrow> (Inl e, s1)
      | Inr s2 \<Rightarrow> (Inr (), s2))"

subsection \<open>The handler\<close>

text \<open>
  Lines 118-142: the lock-free lookup, and when it finds nothing the lookup and the
  insert under the lock. The \<^verbatim>\<open>with\<close> statement releases the lock on every way
  out of its body.
\<close>

definition get_or_create_release ::
  "env \<Rightarrow> store \<Rightarrow> nat \<Rightarrow> result \<Rightarrow> (exn + release \<times> bool) \<times> store" where
  "get_or_create_release env s org res =
     (case Release_filter_first (releases s) org (result_version res) of
        Some r \<Rightarrow> (Inr (r, False), s)
      | None \<Rightarrow>
          let l = Lock (org, result_version res) 5;
              s0 = s\<lparr>releases := raced_releases env (releases s)\<rparr>
          in
          (case withRetry 10 (acquire env l) 0 of
             (Inl e, n) \<Rightarrow> (Inl e, emit (replicate n (LockAttempt l)) s0)
           | (Inr _, n) \<Rightarrow>
               let s1 = emit (replicate n (LockAttempt l) @
                              [LockAcquired l, ReleaseQueried org (result_version res)]) s0
               in
               (case Release_get (releases s1) org (result_version res) of
                  Inr r \<Rightarrow> (Inr (r, False), emit [LockReleased l] s1)
                | Inl e \<Rightarrow>
                    if e = DoesNotExist then
                      (case Release_create (releases s1) org res of
                         Inr (r, rs) \<Rightarrow>
                           (Inr (r, True),
                            emit [ReleaseInserted r, LockReleased l] (s1\<lparr>releases := rs\<rparr>))
                       | Inl e' \<Rightarrow> (Inl e', emit [LockReleased l] s1))
                    else (Inl e, emit [LockReleased l] s1))))"

text \<open>
  Lines 144-152: one insert per project, each in its own atomic block;
  \<^verbatim>\<open>IntegrityError\<close> is caught and passed over, any other exception leaves the loop
  and the handler.
\<close>

fun link_projects ::
  "env \<Rightarrow> release \<Rightarrow> project list \<Rightarrow> project list \<Rightarrow> store \<Rightarrow> (exn + project list) \<times> store" where
  "link_projects env r [] new_projects s = (Inr new_projects, s)"
| "link_projects env r (p # ps) new_projects s =
     (case atomic (insert_link env p r) s of
        (Inl e, s') \<Rightarrow>
          if e = IntegrityError then link_projects env r ps new_projects s'
          else (Inl e, s')
      | (Inr _, s') \<Rightarrow> link_projects env r ps (new_projects @ [p]) s')"

definition release_activity :: "string \<Rightarrow> datetime \<Rightarrow> project \<Rightarrow> activity" where
  "release_activity v d p =
     \<lparr>activity_type = RELEASE,
      activity_project = project_id p,
      ident = v,
      data = [(''version'', v)],
      activity_datetime = d\<rparr>"

text \<open>
  Lines 155-163, the body of \<^verbatim>\<open>if release.date_released\<close>: an Activity row per new
  project, then its notification. Nothing catches an exception of
  \<^verbatim>\<open>send_notification\<close>.
\<close>

fun notify_projects ::
  "env \<Rightarrow> string \<Rightarrow> datetime \<Rightarrow> project list \<Rightarrow> store \<Rightarrow> (exn + unit) \<times> store" where
  "notify_projects env v d [] s = (Inr (), s)"
| "notify_projects env v d (p # ps) s =
     (let a = release_activity v d p;
          s' = emit [ActivityCreated a] s
      in case notify_fault env a of
           Some e \<Rightarrow> (Inl e, s')
         | None \<Rightarrow> notify_projects env v d ps (emit [NotificationSent a] s'))"

text \<open>Lines 154-163: a \<^verbatim>\<open>datetime\<close> is always true in Python, so the test is on \<open>None\<close>.\<close>

definition notify_if_released ::
  "env \<Rightarrow> result \<Rightarrow> release \<Rightarrow> project list \<Rightarrow> store \<Rightarrow> (exn + unit) \<times> store" where
  "notify_if_released env res r new_projects s =
     (case date_released r of
        None \<Rightarrow> (Inr (), s)
      | Some d \<Rightarrow> notify_projects env (result_version res) d new_projects s)"

text \<open>Lines 165-167: an absent or empty commit list is skipped.\<close>

definition attach_commits :: "result \<Rightarrow> release \<Rightarrow> store \<Rightarrow> store" where
  "attach_commits res r s =
     (case result_commits res of
        None \<Rightarrow> s
      | Some cl \<Rightarrow> if cl = [] then s else set_commits r cl s)"

definition invalid_projects :: "store \<Rightarrow> nat \<Rightarrow> result \<Rightarrow> string set" where
  "invalid_projects s org res =
     set (result_projects res) - slug ` set (Project_filter s org (result_projects res))"

text \<open>Lines 105-179.\<close>

definition post :: "env \<Rightarrow> store \<Rightarrow> nat \<Rightarrow> serializer \<Rightarrow> (exn + response) \<times> store" where
  "post env s org ser =
     (case ser of
        Invalid errors \<Rightarrow> (Inr (Response (Errors errors) 400), s)
      | Valid res \<Rightarrow>
          if invalid_projects s org res \<noteq> {} then
            (Inr (Response (Errors [(''projects'', [''Invalid project slugs''])]) 400), s)
          else
            (case get_or_create_release env s org res of
               (Inl e, s1) \<Rightarrow> (Inl e, s1)
             | (Inr (r, created), s1) \<Rightarrow>
                 (case link_projects env r (Project_filter s org (result_projects res)) [] s1 of
                    (Inl e, s2) \<Rightarrow> (Inl e, s2)
                  | (Inr new_projects, s2) \<Rightarrow>
                      (case notify_if_released env res r new_projects s2 of
                         (Inl e, s3) \<Rightarrow> (Inl e, s3)
                       | (Inr _, s3) \<Rightarrow>
                           (Inr (Response (Serialized r) (if \<not> created then 208 else 201)),
                            attach_commits res r s3)))))"

subsection \<open>Reading the store\<close>

text \<open>The Activity rows written so far, and the notifications sent so far, oldest first.\<close>

definition activities_created :: "store \<Rightarrow> activity list" where
  "activities_created s = concat (map (\<lambda>e. case e of ActivityCreated a \<Rightarrow> [a] | _ \<Rightarrow> []) (log s))"

definition notifications_sent :: "store \<Rightarrow> activity list" where
  "notifications_sent s = concat (map (\<lambda>e. case e of NotificationSent a \<Rightarrow> [a] | _ \<Rightarrow> []) (log s))"

text \<open>The two effects of one round of the notification loop.\<close>

definition release_events :: "string \<Rightarrow> datetime \<Rightarrow> project \<Rightarrow> effect list" where
  "release_events v d p =
     [ActivityCreated (release_activity v d p), NotificationSent (release_activity v d p)]"

text \<open>
  The lock traffic of one call: \<open>n\<close> attempts, then, when the lock was obtained, its
  acquisition, what happened while it was held, and its release.
\<close>

definition lock_traffic :: "lock \<Rightarrow> nat \<Rightarrow> effect list option \<Rightarrow> effect list" where
  "lock_traffic l n inside =
     replicate n (LockAttempt l) @
     (case inside of None \<Rightarrow> [] | Some es \<Rightarrow> [LockAcquired l] @ es @ [LockReleased l])"

text \<open>
  What can happen while the lock is held: nothing when it was not obtained, else the
  lookup of the release, alone or followed by the insert of a row.
\<close>

definition under_lock :: "nat \<Rightarrow> string \<Rightarrow> effect list option \<Rightarrow> bool" where
  "under_lock org v inside \<longleftrightarrow>
     (case inside of
        None \<Rightarrow> True
      | Some es \<Rightarrow>
          (case es of
             [q] \<Rightarrow> q = ReleaseQueried org v
           | [q, i] \<Rightarrow>
               q = ReleaseQueried org v \<and> (case i of ReleaseInserted r \<Rightarrow> True | _ \<Rightarrow> False)
           | _ \<Rightarrow> False))"

text \<open>The trace of one round of the linking loop: the block, the insert, the way out.\<close>

definition link_events :: "bool \<Rightarrow> release \<Rightarrow> project \<Rightarrow> effect list" where
  "link_events ok r p =
     [AtomicEntered, LinkInsert (project_id p) (release_id r),
      if ok then AtomicCommitted else AtomicRolledBack]"

text \<open>The store as the racing callers leave it.\<close>

definition raced :: "env \<Rightarrow> store \<Rightarrow> store" where
  "raced env s = s\<lparr>releases := raced_releases env (releases s)\<rparr>"

text \<open>
  The row that links a project to a release; a store with rows added; a project whose
  link can be inserted (no fault, not linked yet); and an insert that fails, if at all,
  with \<^verbatim>\<open>IntegrityError\<close>.
\<close>

definition link_key :: "release \<Rightarrow> project \<Rightarrow> nat \<times> nat" where
  "link_key r p = (project_id p, release_id r)"

definition add_links :: "(nat \<times> nat) list \<Rightarrow> store \<Rightarrow> store" where
  "add_links ks s = s\<lparr>release_projects := release_projects s @ ks\<rparr>"

definition linkable :: "env \<Rightarrow> store \<Rightarrow> release \<Rightarrow> project \<Rightarrow> bool" where
  "linkable env s r p \<longleftrightarrow>
     link_fault env (project_id p) (release_id r) = None \<and>
     (project_id p, release_id r) \<notin> set (release_projects s)"

definition quiet_link :: "env \<Rightarrow> release \<Rightarrow> project \<Rightarrow> bool" where
  "quiet_link env r p \<longleftrightarrow>
     link_fault env (project_id p) (release_id r) = None \<or>
     link_fault env (project_id p) (release_id r) = Some IntegrityError"

subsection \<open>Concrete inputs\<close>

text \<open>
  The scenarios of the specification: tenant 1 with the projects \<open>p1\<close> and
  \<open>p2\<close>, an environment without races and faults, and a store with no release yet.
\<close>

definition P1 :: project where
  "P1 = \<lparr>project_id = 1, project_organization = 1, slug = ''p1''\<rparr>"

definition P2 :: project where
  "P2 = \<lparr>project_id = 2, project_organization = 1, slug = ''p2''\<rparr>"

definition calm :: env where
  "calm = \<lparr>lock_outcome = (\<lambda>k i. None), raced_releases = (\<lambda>rs. rs),
            link_fault = (\<lambda>p r. None), notify_fault = (\<lambda>a. None)\<rparr>"

definition store0 :: store where
  "store0 = \<lparr>projects = [P1, P2], releases = [], release_projects = [],
              release_commits = [], log = []\<rparr>"

definition request :: "string \<Rightarrow> datetime option \<Rightarrow> string list \<Rightarrow> result" where
  "request v d slugs =
     \<lparr>result_version = v, result_ref = None, result_url = None, result_owner = None,
      result_dateStarted = None, result_dateReleased = d, result_projects = slugs,
      result_commits = None\<rparr>"

text \<open>A third project, and the store that has it.\<close>

definition P3 :: project where
  "P3 = \<lparr>project_id = 3, project_organization = 1, slug = ''p3''\<rparr>"

definition store3 :: store where
  "store3 = store0\<lparr>projects := [P1, P2, P3]\<rparr>"

text \<open>
  The release 1.0, not live, and the release 2.0, live since time 7; the store in which
  1.0 exists and is linked to \<open>p1\<close>; and that store as the call that created 1.0
  leaves it, lock traffic included.
\<close>

definition R1 :: release where
  "R1 = \<lparr>release_id = 1, organization_id = 1, version = ''1.0'', ref = None, url = None,
          owner = None, date_started = None, date_released = None\<rparr>"

definition R2 :: release where
  "R2 = \<lparr>release_id = 1, organization_id = 1, version = ''2.0'', ref = None, url = None,
          owner = None, date_started = None, date_released = Some 7\<rparr>"

definition store1 :: store where
  "store1 = store0\<lparr>releases := [R1], release_projects := [(1, 1)]\<rparr>"

definition storeA :: store where
  "storeA = store1\<lparr>log := [LockAttempt (Lock (1, ''1.0'') 5), LockAcquired (Lock (1, ''1.0'') 5),
                            ReleaseQueried 1 ''1.0'', ReleaseInserted R1,
                            LockReleased (Lock (1, ''1.0'') 5),
                            AtomicEntered, LinkInsert 1 1, AtomicCommitted]\<rparr>"

text \<open>
  Another tenant's release 1.0, an older release of tenant 1, and the two stores that
  hold them without and with the release 1.0 of tenant 1 that carries every optional
  field; the request that carries those fields.
\<close>

definition foreign :: release where
  "foreign = \<lparr>release_id = 1, organization_id = 2, version = ''1.0'', ref = None,
               url = None, owner = None, date_started = None, date_released = None\<rparr>"

definition older :: release where
  "older = \<lparr>release_id = 2, organization_id = 1, version = ''0.9'', ref = None,
             url = None, owner = None, date_started = None, date_released = Some 2\<rparr>"

definition R3 :: release where
  "R3 = \<lparr>release_id = 3, organization_id = 1, version = ''1.0'', ref = Some ''abc123'',
          url = Some ''https://example.org/1.0'', owner = Some 4, date_started = Some 5,
          date_released = Some 7\<rparr>"

definition crowded :: store where
  "crowded = store0\<lparr>releases := [foreign, older]\<rparr>"

definition crowded3 :: store where
  "crowded3 = store0\<lparr>releases := [foreign, older, R3]\<rparr>"

definition full_request :: result where
  "full_request =
     \<lparr>result_version = ''1.0'', result_ref = Some ''abc123'',
      result_url = Some ''https://example.org/1.0'', result_owner = Some 4,
      result_dateStarted = Some 5, result_dateReleased = Some 7, result_projects = [''p1''],
      result_commits = None\<rparr>"

text \<open>
  Environments that depart from \<open>calm\<close> in one respect: another caller creates
  the release 1.0 of tenant 1 during the wait for the lock; the lock stays held; the lock service fails;
  the lock is held twice and then the service fails; the lock is held twice and then
  free; the insert of a link to project 2 fails with an \<^verbatim>\<open>IntegrityError\<close> that no
  existing link explains; that insert fails with another exception; the notification for
  project 2 fails.
\<close>

definition racing :: env where
  "racing = calm\<lparr>raced_releases := (\<lambda>rs. rs @ [R3])\<rparr>"

definition busy :: env where
  "busy = calm\<lparr>lock_outcome := (\<lambda>k i. Some LockUnavailable)\<rparr>"

definition broken :: env where
  "broken = calm\<lparr>lock_outcome := (\<lambda>k i. Some (Failure ''redis''))\<rparr>"

definition jammed :: env where
  "jammed = calm\<lparr>lock_outcome :=
     (\<lambda>k i. if i < 2 then Some LockUnavailable else Some (Failure ''redis''))\<rparr>"

definition contended :: env where
  "contended = calm\<lparr>lock_outcome := (\<lambda>k i. if i < 2 then Some LockUnavailable else None)\<rparr>"

definition strict :: env where
  "strict = calm\<lparr>link_fault := (\<lambda>p r. if p = 2 then Some IntegrityError else None)\<rparr>"

definition flaky :: env where
  "flaky = calm\<lparr>link_fault := (\<lambda>p r. if p = 2 then Some (Failure ''db'') else None)\<rparr>"

definition mute :: env where
  "mute = calm\<lparr>notify_fault :=
     (\<lambda>a. if activity_project a = 2 then Some (Failure ''queue'') else None)\<rparr>"

section \<open>Auxiliary lemmas\<close>

lemma emit_simps:
  "projects (emit es s) = projects s"
  "releases (emit es s) = releases s"
  "release_projects (emit es s) = release_projects s"
  "release_commits (emit es s) = release_commits s"
  "log (emit es s) = log s @ es"
  by (simp_all add: emit_def)

lemma emit_emit: "emit es' (emit es s) = emit (es @ es') s"
  by (simp add: emit_def)

lemma withRetry_bound: "snd (withRetry m operation i) \<le> i + m"
proof (induction m arbitrary: i)
  case 0
  show ?case by simp
next
  case (Suc m)
  have "snd (withRetry m operation (Suc i)) \<le> Suc i + m" by (rule Suc.IH)
  then show ?case by (auto split: sum.splits)
qed

lemma withRetry_exhausted:
  "(\<forall>j. i \<le> j \<and> j < i + m \<longrightarrow> operation j = Inl LockUnavailable) \<Longrightarrow>
   withRetry m operation i = (Inl LockTimeout, i + m)"
  by (induction m arbitrary: i) (auto split: sum.splits)

lemma withRetry_other:
  "k < m \<Longrightarrow> (\<forall>j. i \<le> j \<and> j < i + k \<longrightarrow> operation j = Inl LockUnavailable) \<Longrightarrow>
   operation (i + k) = Inl e \<Longrightarrow> e \<noteq> LockUnavailable \<Longrightarrow>
   withRetry m operation i = (Inl e, Suc (i + k))"
proof (induction m arbitrary: i k)
  case 0
  then show ?case by simp
next
  case (Suc m)
  show ?case
  proof (cases k)
    case 0
    with Suc.prems show ?thesis by simp
  next
    case (Suc k')
    have first: "operation i = Inl LockUnavailable"
      using Suc.prems(2) Suc by simp
    have "withRetry m operation (Suc i) = (Inl e, Suc (Suc i + k'))"
    proof (rule Suc.IH)
      show "k' < m" using Suc.prems(1) Suc by simp
      show "\<forall>j. Suc i \<le> j \<and> j < Suc i + k' \<longrightarrow> operation j = Inl LockUnavailable"
        using Suc.prems(2) Suc by simp
      show "operation (Suc i + k') = Inl e" using Suc.prems(3) Suc by simp
      show "e \<noteq> LockUnavailable" by (rule Suc.prems(4))
    qed
    with first Suc show ?thesis by simp
  qed
qed

lemma withRetry_acquired:
  "k < m \<Longrightarrow> (\<forall>j. i \<le> j \<and> j < i + k \<longrightarrow> operation j = Inl LockUnavailable) \<Longrightarrow>
   operation (i + k) = Inr v \<Longrightarrow>
   withRetry m operation i = (Inr v, Suc (i + k))"
proof (induction m arbitrary: i k)
  case 0
  then show ?case by simp
next
  case (Suc m)
  show ?case
  proof (cases k)
    case 0
    with Suc.prems show ?thesis by simp
  next
    case (Suc k')
    have first: "operation i = Inl LockUnavailable"
      using Suc.prems(2) Suc by simp
    have "withRetry m operation (Suc i) = (Inr v, Suc (Suc i + k'))"
    proof (rule Suc.IH)
      show "k' < m" using Suc.prems(1) Suc by simp
      show "\<forall>j. Suc i \<le> j \<and> j < Suc i + k' \<longrightarrow> operation j = Inl LockUnavailable"
        using Suc.prems(2) Suc by simp
      show "operation (Suc i + k') = Inr v" using Suc.prems(3) Suc by simp
    qed
    with first Suc show ?thesis by simp
  qed
qed

lemma activities_created_emit:
  "activities_created (emit es s) =
     activities_created s @ concat (map (\<lambda>e. case e of ActivityCreated a \<Rightarrow> [a] | _ \<Rightarrow> []) es)"
  by (simp add: activities_created_def emit_def)

lemma notifications_sent_emit:
  "notifications_sent (emit es s) =
     notifications_sent s @ concat (map (\<lambda>e. case e of NotificationSent a \<Rightarrow> [a] | _ \<Rightarrow> []) es)"
  by (simp add: notifications_sent_def emit_def)

lemma add_links_emit: "add_links ks (emit es s) = emit es (add_links ks s)"
  by (simp add: add_links_def emit_def)

lemma add_links_add_links: "add_links ks' (add_links ks s) = add_links (ks @ ks') s"
  by (simp add: add_links_def)

lemma add_links_simps:
  "projects (add_links ks s) = projects s"
  "releases (add_links ks s) = releases s"
  "release_projects (add_links ks s) = release_projects s @ ks"
  "release_commits (add_links ks s) = release_commits s"
  "log (add_links ks s) = log s"
  by (simp_all add: add_links_def)

lemma created_link_events:
  "concat (map (\<lambda>e. case e of ActivityCreated a \<Rightarrow> [a] | _ \<Rightarrow> []) (link_events ok r p)) = []"
  by (simp add: link_events_def)

lemma sent_link_events:
  "concat (map (\<lambda>e. case e of NotificationSent a \<Rightarrow> [a] | _ \<Rightarrow> []) (link_events ok r p)) = []"
  by (simp add: link_events_def)

lemma atomic_insert_link:
  "atomic (insert_link env p r) s =
     (case link_fault env (project_id p) (release_id r) of
        Some e \<Rightarrow> (Inl e, emit (link_events False r p) s)
      | None \<Rightarrow>
          if (project_id p, release_id r) \<in> set (release_projects s)
          then (Inl IntegrityError, emit (link_events False r p) s)
          else (Inr (), emit (link_events True r p) (add_links [link_key r p] s)))"
  by (simp add: atomic_def insert_link_def ReleaseProject_create_def emit_def rollback_def
      link_events_def add_links_def link_key_def Let_def split: option.splits)

lemma atomic_insert_link_frame:
  assumes "atomic (insert_link env p r) s = (out, s')"
  shows "projects s' = projects s \<and> releases s' = releases s \<and>
     release_commits s' = release_commits s \<and>
     activities_created s' = activities_created s \<and>
     notifications_sent s' = notifications_sent s"
  using assms unfolding atomic_insert_link
  by (auto simp: emit_simps add_links_simps activities_created_emit notifications_sent_emit
      created_link_events sent_link_events activities_created_def notifications_sent_def
      split: option.splits if_splits)

lemma link_projects_frame:
  "link_projects env r ps new s = (out, s') \<Longrightarrow>
   projects s' = projects s \<and> releases s' = releases s \<and>
   release_commits s' = release_commits s \<and>
   activities_created s' = activities_created s \<and>
   notifications_sent s' = notifications_sent s"
proof (induction ps arbitrary: new s)
  case Nil
  then show ?case by simp
next
  case (Cons p ps)
  obtain o1 s1 where one: "atomic (insert_link env p r) s = (o1, s1)"
    by (cases "atomic (insert_link env p r) s")
  note f1 = atomic_insert_link_frame [OF one]
  show ?case
  proof (cases o1)
    case (Inl e)
    show ?thesis
    proof (cases "e = IntegrityError")
      case True
      with Cons.prems one Inl have "link_projects env r ps new s1 = (out, s')" by simp
      from Cons.IH [OF this] f1 show ?thesis by simp
    next
      case False
      with Cons.prems one Inl have "s' = s1" by simp
      with f1 show ?thesis by simp
    qed
  next
    case (Inr u)
    with Cons.prems one have "link_projects env r ps (new @ [p]) s1 = (out, s')" by simp
    from Cons.IH [OF this] f1 show ?thesis by simp
  qed
qed

lemma link_projects_no_IntegrityError:
  "fst (link_projects env r ps new s) \<noteq> Inl IntegrityError"
  by (induction ps arbitrary: new s) (auto split: sum.splits prod.splits)

lemma linkable_emit: "linkable env (emit es s) r = linkable env s r"
  by (intro ext) (simp add: linkable_def emit_def)

lemma link_projects_append:
  "\<forall>p \<in> set pre. quiet_link env r p \<Longrightarrow> distinct (map project_id pre) \<Longrightarrow>
   link_projects env r (pre @ rest) new s =
     link_projects env r rest (new @ filter (linkable env s r) pre)
       (emit (concat (map (\<lambda>p. link_events (linkable env s r p) r p) pre))
          (add_links (map (link_key r) (filter (linkable env s r) pre)) s))"
proof (induction pre arbitrary: new s)
  case Nil
  show ?case by (simp add: add_links_def emit_def)
next
  case (Cons p pre)
  have quiet: "\<forall>q \<in> set pre. quiet_link env r q" and dist: "distinct (map project_id pre)"
    using Cons.prems by auto
  have fresh: "\<forall>q \<in> set pre. project_id q \<noteq> project_id p"
    using Cons.prems(2) by (auto simp: image_iff)
  have IH: "\<And>new s. link_projects env r (pre @ rest) new s =
     link_projects env r rest (new @ filter (linkable env s r) pre)
       (emit (concat (map (\<lambda>p. link_events (linkable env s r p) r p) pre))
          (add_links (map (link_key r) (filter (linkable env s r) pre)) s))"
    using Cons.IH quiet dist by blast
  show ?case
  proof (cases "linkable env s r p")
    case True
    define s1 where "s1 = emit (link_events True r p) (add_links [link_key r p] s)"
    have step: "atomic (insert_link env p r) s = (Inr (), s1)"
      using True by (simp add: atomic_insert_link linkable_def s1_def)
    have same: "linkable env s1 r q = linkable env s r q" if "q \<in> set pre" for q
      using fresh that by (auto simp: linkable_def s1_def add_links_def emit_def link_key_def)
    then have same_f: "filter (linkable env s1 r) pre = filter (linkable env s r) pre"
      by (intro filter_cong) simp_all
    have same_e: "map (\<lambda>q. link_events (linkable env s1 r q) r q) pre =
        map (\<lambda>q. link_events (linkable env s r q) r q) pre"
      using same by (intro map_cong) simp_all
    have "link_projects env r ((p # pre) @ rest) new s =
        link_projects env r (pre @ rest) (new @ [p]) s1"
      using step by simp
    also have "\<dots> = link_projects env r rest ((new @ [p]) @ filter (linkable env s r) pre)
       (emit (concat (map (\<lambda>p. link_events (linkable env s r p) r p) pre))
          (add_links (map (link_key r) (filter (linkable env s r) pre)) s1))"
      using IH [of "new @ [p]" s1] by (simp only: same_f same_e)
    finally show ?thesis
      using True by (simp add: s1_def add_links_emit add_links_add_links emit_emit)
  next
    case False
    have "quiet_link env r p" using Cons.prems by simp
    with False have step: "atomic (insert_link env p r) s =
        (Inl IntegrityError, emit (link_events False r p) s)"
      by (auto simp: atomic_insert_link linkable_def quiet_link_def)
    then have "link_projects env r ((p # pre) @ rest) new s =
        link_projects env r (pre @ rest) new (emit (link_events False r p) s)"
      by simp
    also have "\<dots> = link_projects env r rest
       (new @ filter (linkable env (emit (link_events False r p) s) r) pre)
       (emit (concat (map (\<lambda>q. link_events (linkable env (emit (link_events False r p) s) r q) r q) pre))
          (add_links (map (link_key r) (filter (linkable env (emit (link_events False r p) s) r) pre))
             (emit (link_events False r p) s)))"
      by (rule IH)
    finally show ?thesis
      using False by (simp add: linkable_emit add_links_emit emit_emit)
  qed
qed

lemma link_projects_quiet:
  "\<forall>p \<in> set ps. quiet_link env r p \<Longrightarrow> distinct (map project_id ps) \<Longrightarrow>
   link_projects env r ps new s =
     (Inr (new @ filter (linkable env s r) ps),
      emit (concat (map (\<lambda>p. link_events (linkable env s r p) r p) ps))
        (add_links (map (link_key r) (filter (linkable env s r) ps)) s))"
  using link_projects_append [of ps env r "[]" new s] by simp

lemma link_projects_fault:
  "link_fault env (project_id p) (release_id r) = Some e \<Longrightarrow> e \<noteq> IntegrityError \<Longrightarrow>
   link_projects env r (p # rest) new s = (Inl e, emit (link_events False r p) s)"
  by (simp add: atomic_insert_link)

lemma created_release_events:
  "concat (map (\<lambda>e. case e of ActivityCreated a \<Rightarrow> [a] | _ \<Rightarrow> [])
     (concat (map (release_events v d) ps))) = map (release_activity v d) ps"
  by (induction ps) (simp_all add: release_events_def)


lemma notify_projects_frame:
  "notify_projects env v d ps s = (out, s') \<Longrightarrow>
   projects s' = projects s \<and> releases s' = releases s \<and>
   release_projects s' = release_projects s \<and> release_commits s' = release_commits s"
proof (induction ps arbitrary: s)
  case Nil
  then show ?case by simp
next
  case (Cons p ps)
  show ?case
  proof (cases "notify_fault env (release_activity v d p)")
    case None
    with Cons.prems have "notify_projects env v d ps
        (emit [NotificationSent (release_activity v d p)]
           (emit [ActivityCreated (release_activity v d p)] s)) = (out, s')"
      by (simp add: Let_def)
    from Cons.IH [OF this] show ?thesis by (simp add: emit_simps)
  next
    case (Some e)
    with Cons.prems show ?thesis by (auto simp: Let_def emit_simps)
  qed
qed

lemma notify_projects_append:
  "\<forall>p \<in> set pre. notify_fault env (release_activity v d p) = None \<Longrightarrow>
   notify_projects env v d (pre @ rest) s =
     notify_projects env v d rest (emit (concat (map (release_events v d) pre)) s)"
proof (induction pre arbitrary: s)
  case Nil
  show ?case by (simp add: emit_def)
next
  case (Cons p pre)
  then show ?case by (simp add: Let_def emit_emit release_events_def)
qed

lemma notify_projects_quiet:
  "\<forall>p \<in> set ps. notify_fault env (release_activity v d p) = None \<Longrightarrow>
   notify_projects env v d ps s = (Inr (), emit (concat (map (release_events v d) ps)) s)"
  using notify_projects_append [of ps env v d "[]" s] by simp

lemma notify_projects_fault:
  "notify_fault env (release_activity v d p) = Some e \<Longrightarrow>
   notify_projects env v d (p # rest) s =
     (Inl e, emit [ActivityCreated (release_activity v d p)] s)"
  by (simp add: Let_def)

lemma notify_projects_stops:
  assumes "\<forall>q \<in> set pre. notify_fault env (release_activity v d q) = None"
    and "notify_fault env (release_activity v d p) = Some e"
  shows "notify_projects env v d (pre @ p # rest) s =
     (Inl e, emit (concat (map (release_events v d) pre) @
                   [ActivityCreated (release_activity v d p)]) s)"
  using assms by (simp add: notify_projects_append notify_projects_fault emit_emit)

lemma notify_projects_shape:
  assumes "notify_projects env v d ps s = (out, s')"
  shows "\<exists>k \<le> length ps.
     activities_created s' = activities_created s @ map (release_activity v d) (take k ps) \<and>
     (\<forall>u. out = Inr u \<longrightarrow> log s' = log s @ concat (map (release_events v d) ps))"
proof -
  define ok where "ok = (\<lambda>p. notify_fault env (release_activity v d p) = None)"
  define pre where "pre = takeWhile ok ps"
  have quiet: "\<forall>q \<in> set pre. notify_fault env (release_activity v d q) = None"
    unfolding pre_def using set_takeWhileD [of _ ok ps] by (auto simp: ok_def)
  show ?thesis
  proof (cases "dropWhile ok ps")
    case Nil
    then have all: "\<forall>q \<in> set ps. notify_fault env (release_activity v d q) = None"
      by (auto simp: ok_def)
    from assms notify_projects_quiet [OF all, of s]
    have "out = Inr ()" and s': "s' = emit (concat (map (release_events v d) ps)) s"
      by simp_all
    have "activities_created s' =
        activities_created s @ map (release_activity v d) (take (length ps) ps)"
      by (simp add: s' activities_created_emit created_release_events)
    moreover have "log s' = log s @ concat (map (release_events v d) ps)"
      by (simp add: s' emit_simps)
    ultimately show ?thesis by blast
  next
    case (Cons p rest)
    then have split: "ps = pre @ p # rest"
      unfolding pre_def by (metis takeWhile_dropWhile_id)
    have "\<not> ok p" using Cons by (metis hd_dropWhile list.sel(1) list.distinct(1))
    then obtain e where e: "notify_fault env (release_activity v d p) = Some e"
      by (auto simp: ok_def)
    from assms notify_projects_stops [OF quiet e, of rest s] split
    have out: "out = Inl e"
      and s': "s' = emit (concat (map (release_events v d) pre) @
                   [ActivityCreated (release_activity v d p)]) s"
      by simp_all
    have tk: "take (Suc (length pre)) ps = pre @ [p]"
      by (simp add: split)
    have "activities_created s' =
        activities_created s @ map (release_activity v d) (take (Suc (length pre)) ps)"
      by (simp add: s' tk activities_created_emit created_release_events)
    moreover have "Suc (length pre) \<le> length ps" by (simp add: split)
    ultimately show ?thesis using out by blast
  qed
qed

lemma Release_get_none:
  "filter (matches org v) rs = [] \<Longrightarrow> Release_get rs org v = Inl DoesNotExist"
  by (simp add: Release_get_def)

lemma Release_get_one:
  "filter (matches org v) rs = [r] \<Longrightarrow> Release_get rs org v = Inr r"
  by (simp add: Release_get_def)

lemma Release_get_many:
  "filter (matches org v) rs = r1 # r2 # others \<Longrightarrow>
   Release_get rs org v = Inl MultipleObjectsReturned"
  by (simp add: Release_get_def)

lemma Release_create_absent:
  "filter (matches org (result_version res)) rs = [] \<Longrightarrow>
   Release_create rs org res = Inr (release_row rs org res, rs @ [release_row rs org res])"
  by (auto simp: Release_create_def filter_empty_conv)

lemma goc_fast:
  "Release_filter_first (releases s) org (result_version res) = Some r \<Longrightarrow>
   get_or_create_release env s org res = (Inr (r, False), s)"
  by (simp add: get_or_create_release_def)

lemma goc_lock_failed:
  assumes "Release_filter_first (releases s) org (result_version res) = None"
    and "withRetry 10 (acquire env (Lock (org, result_version res) 5)) 0 = (Inl e, n)"
  shows "get_or_create_release env s org res =
     (Inl e, emit (replicate n (LockAttempt (Lock (org, result_version res) 5))) (raced env s))"
  using assms by (simp add: get_or_create_release_def Let_def raced_def)

lemma goc_recheck_found:
  assumes "Release_filter_first (releases s) org (result_version res) = None"
    and "withRetry 10 (acquire env (Lock (org, result_version res) 5)) 0 = (Inr l, n)"
    and "filter (matches org (result_version res)) (raced_releases env (releases s)) = [r]"
  shows "get_or_create_release env s org res =
     (Inr (r, False),
      emit (replicate n (LockAttempt (Lock (org, result_version res) 5)) @
            [LockAcquired (Lock (org, result_version res) 5),
             ReleaseQueried org (result_version res),
             LockReleased (Lock (org, result_version res) 5)]) (raced env s))"
  using assms
  by (simp add: get_or_create_release_def Let_def raced_def Release_get_one emit_simps emit_emit)

lemma goc_created:
  assumes "Release_filter_first (releases s) org (result_version res) = None"
    and "withRetry 10 (acquire env (Lock (org, result_version res) 5)) 0 = (Inr l, n)"
    and "filter (matches org (result_version res)) (raced_releases env (releases s)) = []"
  shows "get_or_create_release env s org res =
     (Inr (release_row (raced_releases env (releases s)) org res, True),
      emit (replicate n (LockAttempt (Lock (org, result_version res) 5)) @
            [LockAcquired (Lock (org, result_version res) 5),
             ReleaseQueried org (result_version res),
             ReleaseInserted (release_row (raced_releases env (releases s)) org res),
             LockReleased (Lock (org, result_version res) 5)])
        (s\<lparr>releases := raced_releases env (releases s) @
              [release_row (raced_releases env (releases s)) org res]\<rparr>))"
  using assms
  by (simp add: get_or_create_release_def Let_def Release_get_none Release_create_absent
      emit_simps emit_def)

lemma goc_recheck_many:
  assumes "Release_filter_first (releases s) org (result_version res) = None"
    and "withRetry 10 (acquire env (Lock (org, result_version res) 5)) 0 = (Inr l, n)"
    and "filter (matches org (result_version res)) (raced_releases env (releases s)) =
           r1 # r2 # others"
  shows "get_or_create_release env s org res =
     (Inl MultipleObjectsReturned,
      emit (replicate n (LockAttempt (Lock (org, result_version res) 5)) @
            [LockAcquired (Lock (org, result_version res) 5),
             ReleaseQueried org (result_version res),
             LockReleased (Lock (org, result_version res) 5)]) (raced env s))"
  using assms
  by (simp add: get_or_create_release_def Let_def raced_def Release_get_many emit_simps emit_emit)

lemma find_filter_one: "filter P xs = [r] \<Longrightarrow> find P xs = Some r"
proof (induction xs)
  case Nil
  then show ?case by simp
next
  case (Cons x xs)
  show ?case
  proof (cases "P x")
    case True
    with Cons.prems show ?thesis by simp
  next
    case False
    with Cons show ?thesis by simp
  qed
qed

lemma find_append_new: "filter P xs = [] \<Longrightarrow> P r \<Longrightarrow> find P (xs @ [r]) = Some r"
  by (induction xs) (auto split: if_splits)

lemma matches_release_row: "matches org (result_version res) (release_row rs org res)"
  by (simp add: matches_def release_row_def)

lemma matches_fun:
  "matches org v = (\<lambda>x. organization_id x = org \<and> version x = v)"
  by (intro ext) (simp add: matches_def)

lemma under_lock_iff:
  "under_lock org v inside \<longleftrightarrow>
     inside = None \<or> inside = Some [ReleaseQueried org v] \<or>
     (\<exists>r. inside = Some [ReleaseQueried org v, ReleaseInserted r])"
  by (auto simp: under_lock_def split: option.splits list.splits effect.splits)

lemma created_lock_traffic:
  "under_lock org v inside \<Longrightarrow>
   concat (map (\<lambda>e. case e of ActivityCreated a \<Rightarrow> [a] | _ \<Rightarrow> []) (lock_traffic l n inside)) = []"
  by (auto simp: lock_traffic_def under_lock_iff)

lemma sent_lock_traffic:
  "under_lock org v inside \<Longrightarrow>
   concat (map (\<lambda>e. case e of NotificationSent a \<Rightarrow> [a] | _ \<Rightarrow> []) (lock_traffic l n inside)) = []"
  by (auto simp: lock_traffic_def under_lock_iff)

lemma goc_outcome:
  assumes "get_or_create_release env s org res = (out, s1)"
  shows
    "(\<exists>r. Release_filter_first (releases s) org (result_version res) = Some r \<and>
          out = Inr (r, False) \<and> s1 = s) \<or>
     (Release_filter_first (releases s) org (result_version res) = None \<and>
      (\<exists>n inside. under_lock org (result_version res) inside \<and>
         ((\<exists>e. out = Inl e \<and>
            s1 = emit (lock_traffic (Lock (org, result_version res) 5) n inside) (raced env s)) \<or>
         (\<exists>r. filter (matches org (result_version res)) (raced_releases env (releases s)) = [r] \<and>
            out = Inr (r, False) \<and>
            s1 = emit (lock_traffic (Lock (org, result_version res) 5) n inside) (raced env s)) \<or>
         (filter (matches org (result_version res)) (raced_releases env (releases s)) = [] \<and>
            out = Inr (release_row (raced_releases env (releases s)) org res, True) \<and>
            s1 = emit (lock_traffic (Lock (org, result_version res) 5) n inside)
                   (s\<lparr>releases := raced_releases env (releases s) @
                         [release_row (raced_releases env (releases s)) org res]\<rparr>)))))"
proof (cases "Release_filter_first (releases s) org (result_version res)")
  case (Some r)
  with assms goc_fast [OF Some, of env] show ?thesis by simp
next
  case None
  let ?q = "ReleaseQueried org (result_version res)"
  obtain w n where w: "withRetry 10 (acquire env (Lock (org, result_version res) 5)) 0 = (w, n)"
    by (cases "withRetry 10 (acquire env (Lock (org, result_version res) 5)) 0")
  show ?thesis
  proof (cases w)
    case (Inl e)
    from assms goc_lock_failed [OF None w [unfolded Inl]]
    have "out = Inl e \<and>
        s1 = emit (lock_traffic (Lock (org, result_version res) 5) n None) (raced env s)"
      by (simp add: lock_traffic_def)
    moreover have "under_lock org (result_version res) None" by (simp add: under_lock_def)
    ultimately show ?thesis using None by blast
  next
    case (Inr l)
    note acq = w [unfolded Inr]
    have u1: "under_lock org (result_version res) (Some [?q])" by (simp add: under_lock_def)
    show ?thesis
    proof (cases "filter (matches org (result_version res)) (raced_releases env (releases s))")
      case Nil
      let ?row = "release_row (raced_releases env (releases s)) org res"
      from assms goc_created [OF None acq Nil]
      have "out = Inr (?row, True) \<and>
            s1 = emit (lock_traffic (Lock (org, result_version res) 5) n
                         (Some [?q, ReleaseInserted ?row]))
                   (s\<lparr>releases := raced_releases env (releases s) @ [?row]\<rparr>)"
        by (simp add: lock_traffic_def)
      moreover have "under_lock org (result_version res) (Some [?q, ReleaseInserted ?row])"
        by (simp add: under_lock_def)
      ultimately show ?thesis using None Nil by blast
    next
      case (Cons r1 rest)
      show ?thesis
      proof (cases rest)
        case Nil
        from assms goc_recheck_found [OF None acq Cons [unfolded Nil]]
        have "out = Inr (r1, False) \<and>
            s1 = emit (lock_traffic (Lock (org, result_version res) 5) n (Some [?q]))
                   (raced env s)"
          by (simp add: lock_traffic_def)
        with None Cons Nil u1 show ?thesis by blast
      next
        case (Cons r2 others)
        from assms goc_recheck_many [OF None acq \<open>filter _ _ = r1 # rest\<close> [unfolded Cons]]
        have "out = Inl MultipleObjectsReturned \<and>
            s1 = emit (lock_traffic (Lock (org, result_version res) 5) n (Some [?q]))
                   (raced env s)"
          by (simp add: lock_traffic_def)
        with None u1 show ?thesis by blast
      qed
    qed
  qed
qed

lemma goc_frame:
  assumes "get_or_create_release env s org res = (out, s1)"
  shows "projects s1 = projects s \<and> release_projects s1 = release_projects s \<and>
     release_commits s1 = release_commits s \<and>
     activities_created s1 = activities_created s \<and>
     notifications_sent s1 = notifications_sent s"
  using goc_outcome [OF assms]
  by (auto simp: emit_simps raced_def activities_created_emit notifications_sent_emit
      created_lock_traffic sent_lock_traffic
      activities_created_def notifications_sent_def)

lemma goc_stored:
  assumes "get_or_create_release env s org res = (Inr (r, c), s1)"
  shows "Release_filter_first (releases s1) org (result_version res) = Some r"
  using goc_outcome [OF assms]
  by (auto simp: emit_simps raced_def Release_filter_first_def find_filter_one
      find_append_new matches_release_row)

lemma goc_releases:
  assumes "get_or_create_release env s org res = (Inr (r, c), s1)"
  shows "releases s1 =
     (if Release_filter_first (releases s) org (result_version res) \<noteq> None then releases s
      else if c then raced_releases env (releases s) @ [r]
      else raced_releases env (releases s))"
    and "c \<Longrightarrow> r = release_row (raced_releases env (releases s)) org res"
  using goc_outcome [OF assms]
  by (auto simp: emit_simps raced_def)

lemma withRetry_numeral:
  "withRetry (numeral k) operation i =
     (case operation i of
        Inr v \<Rightarrow> (Inr v, Suc i)
      | Inl e \<Rightarrow>
          if e = LockUnavailable then withRetry (pred_numeral k) operation (Suc i)
          else (Inl e, Suc i))"
  by (simp add: numeral_eq_Suc)

lemma attach_commits_frame:
  "projects (attach_commits res r s) = projects s"
  "releases (attach_commits res r s) = releases s"
  "release_projects (attach_commits res r s) = release_projects s"
  "log (attach_commits res r s) = log s"
  by (simp_all add: attach_commits_def set_commits_def split: option.splits)

lemma post_valid:
  assumes "invalid_projects s org res = {}"
    and "get_or_create_release env s org res = (Inr (r, c), s1)"
    and "link_projects env r (Project_filter s org (result_projects res)) [] s1 = (Inr new, s2)"
  shows "post env s org (Valid res) =
     (case notify_if_released env res r new s2 of
        (Inl e, s3) \<Rightarrow> (Inl e, s3)
      | (Inr u, s3) \<Rightarrow>
          (Inr (Response (Serialized r) (if c then 201 else 208)), attach_commits res r s3))"
  using assms by (simp add: post_def split: prod.splits sum.splits)

lemma post_lookup_failed:
  assumes "invalid_projects s org res = {}"
    and "get_or_create_release env s org res = (Inl e, s1)"
  shows "post env s org (Valid res) = (Inl e, s1)"
  using assms by (simp add: post_def)

lemma post_link_failed:
  assumes "invalid_projects s org res = {}"
    and "get_or_create_release env s org res = (Inr (r, c), s1)"
    and "link_projects env r (Project_filter s org (result_projects res)) [] s1 = (Inl e, s2)"
  shows "post env s org (Valid res) = (Inl e, s2)"
  using assms by (simp add: post_def)

lemma post_Serialized:
  assumes "post env s org (Valid res) = (Inr (Response (Serialized r) st), s')"
  shows "\<exists>c s1 new s2 u s3.
     invalid_projects s org res = {} \<and>
     get_or_create_release env s org res = (Inr (r, c), s1) \<and>
     link_projects env r (Project_filter s org (result_projects res)) [] s1 = (Inr new, s2) \<and>
     notify_if_released env res r new s2 = (Inr u, s3) \<and>
     s' = attach_commits res r s3 \<and> st = (if c then 201 else 208)"
  using assms
  by (auto simp: post_def split: if_splits prod.splits sum.splits)

lemma same_log:
  "log s' = log s \<Longrightarrow>
   activities_created s' = activities_created s \<and> notifications_sent s' = notifications_sent s"
  by (simp add: activities_created_def notifications_sent_def)

lemma notify_if_released_frame:
  assumes "notify_if_released env res r new s = (out, s')"
  shows "projects s' = projects s \<and> releases s' = releases s \<and>
     release_projects s' = release_projects s \<and> release_commits s' = release_commits s"
proof (cases "date_released r")
  case None
  with assms show ?thesis by (simp add: notify_if_released_def)
next
  case (Some d)
  with assms have "notify_projects env (result_version res) d new s = (out, s')"
    by (simp add: notify_if_released_def)
  then show ?thesis by (rule notify_projects_frame)
qed

lemma post_tables:
  assumes "invalid_projects s org res = {}"
  shows "releases (snd (post env s org (Valid res))) =
           releases (snd (get_or_create_release env s org res))"
    and "projects (snd (post env s org (Valid res))) = projects s"
proof -
  obtain o1 s1 where goc: "get_or_create_release env s org res = (o1, s1)"
    by (cases "get_or_create_release env s org res")
  have p1: "projects s1 = projects s" using goc_frame [OF goc] by simp
  have "releases (snd (post env s org (Valid res))) = releases s1 \<and>
        projects (snd (post env s org (Valid res))) = projects s"
  proof (cases o1)
    case (Inl e)
    with assms goc p1 show ?thesis by (simp add: post_lookup_failed)
  next
    case (Inr rc)
    obtain r c where rc: "rc = (r, c)" by (cases rc)
    note goc' = goc [unfolded Inr rc]
    obtain o2 s2 where lnk:
      "link_projects env r (Project_filter s org (result_projects res)) [] s1 = (o2, s2)"
      by (cases "link_projects env r (Project_filter s org (result_projects res)) [] s1")
    have f2: "projects s2 = projects s1 \<and> releases s2 = releases s1"
      using link_projects_frame [OF lnk] by simp
    show ?thesis
    proof (cases o2)
      case (Inl e)
      with assms goc' lnk f2 p1 show ?thesis by (simp add: post_link_failed)
    next
      case (Inr new)
      obtain o3 s3 where ntf: "notify_if_released env res r new s2 = (o3, s3)"
        by (cases "notify_if_released env res r new s2")
      have f3: "projects s3 = projects s2 \<and> releases s3 = releases s2"
        using notify_if_released_frame [OF ntf] by simp
      from post_valid [OF assms goc' lnk [unfolded Inr]] ntf f2 f3 p1
      show ?thesis by (cases o3) (simp_all add: attach_commits_frame)
    qed
  qed
  with goc show "releases (snd (post env s org (Valid res))) =
           releases (snd (get_or_create_release env s org res))"
    and "projects (snd (post env s org (Valid res))) = projects s"
    by simp_all
qed

lemma post_silent:
  assumes "get_or_create_release env s org res = (Inr (r, c), s1)"
    and "date_released r = None"
  shows "activities_created (snd (post env s org (Valid res))) = activities_created s \<and>
         notifications_sent (snd (post env s org (Valid res))) = notifications_sent s"
proof (cases "invalid_projects s org res = {}")
  case False
  then show ?thesis by (simp add: post_def)
next
  case True
  have l1: "activities_created s1 = activities_created s \<and>
            notifications_sent s1 = notifications_sent s"
    using goc_frame [OF assms(1)] by simp
  obtain o2 s2 where lnk:
    "link_projects env r (Project_filter s org (result_projects res)) [] s1 = (o2, s2)"
    by (cases "link_projects env r (Project_filter s org (result_projects res)) [] s1")
  have l2: "activities_created s2 = activities_created s1 \<and>
            notifications_sent s2 = notifications_sent s1"
    using link_projects_frame [OF lnk] by simp
  show ?thesis
  proof (cases o2)
    case (Inl e)
    with True assms(1) lnk l1 l2 show ?thesis by (simp add: post_link_failed)
  next
    case (Inr new)
    have "notify_if_released env res r new s2 = (Inr (), s2)"
      using assms(2) by (simp add: notify_if_released_def)
    with post_valid [OF True assms(1) lnk [unfolded Inr]]
    have "log (snd (post env s org (Valid res))) = log s2"
      by (simp add: attach_commits_frame)
    from same_log [OF this] l1 l2 show ?thesis by simp
  qed
qed

lemma link_projects_returns:
  "\<forall>p \<in> set ps. quiet_link env r p \<Longrightarrow>
   \<exists>new' s'. link_projects env r ps new s = (Inr new', s')"
proof (induction ps arbitrary: new s)
  case Nil
  show ?case by simp
next
  case (Cons p ps)
  then have IH: "\<And>new s. \<exists>new' s'. link_projects env r ps new s = (Inr new', s')"
    by simp
  have q: "quiet_link env r p" using Cons.prems by simp
  obtain o1 s1 where one: "atomic (insert_link env p r) s = (o1, s1)"
    by (cases "atomic (insert_link env p r) s")
  show ?case
  proof (cases o1)
    case (Inl e)
    with q one have "e = IntegrityError"
      by (auto simp: atomic_insert_link quiet_link_def split: option.splits if_splits)
    with Inl one IH [of new s1] show ?thesis by simp
  next
    case (Inr u)
    with one IH [of "new @ [p]" s1] show ?thesis by simp
  qed
qed

lemma post_existing:
  assumes "Release_filter_first (releases s) org (result_version res) = Some r"
  shows "releases (snd (post env s org (Valid res))) = releases s"
    and "fst (post env s org (Valid res)) = Inr (Response (Serialized r') st) \<Longrightarrow>
         r' = r \<and> st = 208"
proof -
  show "releases (snd (post env s org (Valid res))) = releases s"
  proof (cases "invalid_projects s org res = {}")
    case True
    from post_tables(1) [OF True] goc_fast [OF assms] show ?thesis by simp
  next
    case False
    then show ?thesis by (simp add: post_def)
  qed
  assume "fst (post env s org (Valid res)) = Inr (Response (Serialized r') st)"
  then have "post env s org (Valid res) =
      (Inr (Response (Serialized r') st), snd (post env s org (Valid res)))"
    by (metis prod.collapse)
  from post_Serialized [OF this] goc_fast [OF assms, of env]
  show "r' = r \<and> st = 208" by auto
qed

lemma replicate_numeral: "replicate (numeral k) x = x # replicate (pred_numeral k) x"
  by (simp add: numeral_eq_Suc)

text \<open>Unfolding the scenarios and the handler on concrete inputs.\<close>

lemmas scenario_defs =
  P1_def P2_def P3_def calm_def store0_def request_def R1_def R2_def store1_def storeA_def
  busy_def

lemmas handler_defs =
  post_def invalid_projects_def Project_filter_def get_or_create_release_def
  Release_filter_first_def matches_def Release_get_def Release_create_def release_row_def
  fresh_id_def acquire_def withRetry_numeral emit_def raced_def lock_traffic_def
  ReleaseProject_create_def atomic_def rollback_def insert_link_def link_events_def
  release_activity_def release_events_def notify_if_released_def
  attach_commits_def set_commits_def activities_created_def notifications_sent_def
  linkable_def quiet_link_def add_links_def link_key_def Let_def replicate_numeral

section \<open>The claims\<close>

text \<open>
  C1. The lookup-or-create step (lines 118-142) is this algorithm. When the lock-free
  lookup by (organization, version) finds a release, that release is returned with
  \<open>created = False\<close> and the store is untouched: no lock is requested and nothing is
  read or written under a lock. Only when the lookup finds nothing is the lock keyed by
  (organization, version), with duration 5, requested under the retry policy with bound
  10. If the policy fails, its failure is the outcome and the trace holds the attempts
  only. If it obtains the lock, then between the acquisition and the release of the lock
  the release is looked up again by (organization, version) on the table as the racing
  callers left it: one matching row is returned with \<open>created = False\<close> and nothing is
  written; no matching row makes the handler insert, after that lookup and before the
  lock is released, the row whose organization, version, ref, url, owner, date_started
  and date_released are those of the request, and return it with \<open>created = True\<close>.
  So \<open>created\<close> is true exactly when both lookups found nothing, and the release
  returned is the one the lock-free lookup finds afterwards.
\<close>

theorem get_or_create_release_algorithm:
  fixes env s org res
  defines "same \<equiv> \<lambda>x. organization_id x = org \<and> version x = result_version res"
    and "l \<equiv> Lock (org, result_version res) 5"
    and "rs \<equiv> raced_releases env (releases s)"
  defines "row \<equiv>
      \<lparr>release_id = fresh_id rs, organization_id = org, version = result_version res,
       ref = result_ref res, url = result_url res, owner = result_owner res,
       date_started = result_dateStarted res, date_released = result_dateReleased res\<rparr>"
  shows
  "(\<forall>r. find same (releases s) = Some r \<longrightarrow>
       get_or_create_release env s org res = (Inr (r, False), s)) \<and>
   (find same (releases s) = None \<longrightarrow>
      (\<forall>e n. withRetry 10 (acquire env l) 0 = (Inl e, n) \<longrightarrow>
         get_or_create_release env s org res =
           (Inl e, s\<lparr>releases := rs, log := log s @ replicate n (LockAttempt l)\<rparr>)) \<and>
      (\<forall>h n. withRetry 10 (acquire env l) 0 = (Inr h, n) \<longrightarrow>
         (\<forall>r. filter same rs = [r] \<longrightarrow>
            get_or_create_release env s org res =
              (Inr (r, False),
               s\<lparr>releases := rs,
                 log := log s @ replicate n (LockAttempt l) @
                   [LockAcquired l, ReleaseQueried org (result_version res),
                    LockReleased l]\<rparr>)) \<and>
         (filter same rs = [] \<longrightarrow>
            get_or_create_release env s org res =
              (Inr (row, True),
               s\<lparr>releases := rs @ [row],
                 log := log s @ replicate n (LockAttempt l) @
                   [LockAcquired l, ReleaseQueried org (result_version res),
                    ReleaseInserted row, LockReleased l]\<rparr>)))) \<and>
   (\<forall>r c s'. get_or_create_release env s org res = (Inr (r, c), s') \<longrightarrow>
      (c \<longleftrightarrow> find same (releases s) = None \<and> filter same rs = []) \<and>
      find same (releases s') = Some r)"
proof -
  have same: "same = matches org (result_version res)"
    by (simp add: same_def matches_fun)
  have first: "find same (releases t) = Release_filter_first (releases t) org (result_version res)"
    for t by (simp add: same Release_filter_first_def)
  have row: "row = release_row rs org res"
    by (simp add: row_def release_row_def)
  have rc: "raced env s = s\<lparr>releases := rs\<rparr>"
    by (simp add: raced_def rs_def)
  show ?thesis
  proof (intro conjI allI impI)
    fix r assume "find same (releases s) = Some r"
    then have "Release_filter_first (releases s) org (result_version res) = Some r"
      by (simp add: first)
    then show "get_or_create_release env s org res = (Inr (r, False), s)"
      by (rule goc_fast)
  next
    fix e n
    assume "find same (releases s) = None" and w: "withRetry 10 (acquire env l) 0 = (Inl e, n)"
    then have f: "Release_filter_first (releases s) org (result_version res) = None"
      by (simp add: first)
    from goc_lock_failed [OF f w [unfolded l_def]]
    show "get_or_create_release env s org res =
        (Inl e, s\<lparr>releases := rs, log := log s @ replicate n (LockAttempt l)\<rparr>)"
      by (simp add: rc emit_def l_def)
  next
    fix h n r
    assume "find same (releases s) = None" and w: "withRetry 10 (acquire env l) 0 = (Inr h, n)"
      and "filter same rs = [r]"
    then have f: "Release_filter_first (releases s) org (result_version res) = None"
      and one: "filter (matches org (result_version res)) (raced_releases env (releases s)) = [r]"
      by (simp_all add: same Release_filter_first_def rs_def)
    from goc_recheck_found [OF f w [unfolded l_def] one]
    show "get_or_create_release env s org res =
        (Inr (r, False),
         s\<lparr>releases := rs,
           log := log s @ replicate n (LockAttempt l) @
             [LockAcquired l, ReleaseQueried org (result_version res), LockReleased l]\<rparr>)"
      by (simp add: rc emit_def l_def)
  next
    fix h n
    assume "find same (releases s) = None" and w: "withRetry 10 (acquire env l) 0 = (Inr h, n)"
      and "filter same rs = []"
    then have f: "Release_filter_first (releases s) org (result_version res) = None"
      and none: "filter (matches org (result_version res)) (raced_releases env (releases s)) = []"
      by (simp_all add: same Release_filter_first_def rs_def)
    from goc_created [OF f w [unfolded l_def] none]
    show "get_or_create_release env s org res =
        (Inr (row, True),
         s\<lparr>releases := rs @ [row],
           log := log s @ replicate n (LockAttempt l) @
             [LockAcquired l, ReleaseQueried org (result_version res),
              ReleaseInserted row, LockReleased l]\<rparr>)"
      by (simp add: row rs_def emit_def l_def)
  next
    fix r c s' assume a: "get_or_create_release env s org res = (Inr (r, c), s')"
    from goc_outcome [OF a]
    have "c \<longleftrightarrow> Release_filter_first (releases s) org (result_version res) = None \<and>
        filter (matches org (result_version res)) (raced_releases env (releases s)) = []"
      by auto
    then show "c \<longleftrightarrow> find same (releases s) = None \<and> filter same rs = []"
      by (simp add: same Release_filter_first_def rs_def)
    from goc_stored [OF a] show "find same (releases s') = Some r"
      by (simp add: first)
  qed
qed

text \<open>
  The four runs of C1, on a table that also holds release 1.0 of another tenant and an
  older release of tenant 1, with a request that sets every optional field: release 1.0
  of tenant 1 exists; it is absent and the lock stays held; it is absent and another
  caller creates it during the wait; it is absent and nobody races.
\<close>

theorem get_or_create_release_algorithm_witness:
  "find (\<lambda>x. organization_id x = 1 \<and> version x = ''1.0'') (releases crowded3) = Some R3 \<and>
   get_or_create_release calm crowded3 1 full_request = (Inr (R3, False), crowded3) \<and>
   find (\<lambda>x. organization_id x = 1 \<and> version x = ''1.0'') (releases crowded) = None \<and>
   withRetry 10 (acquire busy (Lock (1, ''1.0'') 5)) 0 = (Inl LockTimeout, 10) \<and>
   get_or_create_release busy crowded 1 full_request =
     (Inl LockTimeout,
      crowded\<lparr>log := replicate 10 (LockAttempt (Lock (1, ''1.0'') 5))\<rparr>) \<and>
   withRetry 10 (acquire racing (Lock (1, ''1.0'') 5)) 0 = (Inr (Lock (1, ''1.0'') 5), 1) \<and>
   filter (\<lambda>x. organization_id x = 1 \<and> version x = ''1.0'')
     (raced_releases racing (releases crowded)) = [R3] \<and>
   get_or_create_release racing crowded 1 (request ''1.0'' None [''p1'']) =
     (Inr (R3, False),
      crowded\<lparr>releases := [foreign, older, R3],
        log := [LockAttempt (Lock (1, ''1.0'') 5), LockAcquired (Lock (1, ''1.0'') 5),
                ReleaseQueried 1 ''1.0'', LockReleased (Lock (1, ''1.0'') 5)]\<rparr>) \<and>
   withRetry 10 (acquire calm (Lock (1, ''1.0'') 5)) 0 = (Inr (Lock (1, ''1.0'') 5), 1) \<and>
   filter (\<lambda>x. organization_id x = 1 \<and> version x = ''1.0'')
     (raced_releases calm (releases crowded)) = [] \<and>
   get_or_create_release calm crowded 1 full_request =
     (Inr (R3, True),
      crowded\<lparr>releases := [foreign, older, R3],
        log := [LockAttempt (Lock (1, ''1.0'') 5), LockAcquired (Lock (1, ''1.0'') 5),
                ReleaseQueried 1 ''1.0'', ReleaseInserted R3,
                LockReleased (Lock (1, ''1.0'') 5)]\<rparr>)"
  using
    get_or_create_release_algorithm
      [where s = crowded3 and org = 1 and res = full_request and env = calm]
    get_or_create_release_algorithm
      [where s = crowded and org = 1 and res = full_request and env = busy]
    get_or_create_release_algorithm
      [where s = crowded and org = 1 and res = "request ''1.0'' None [''p1'']" and env = racing]
    get_or_create_release_algorithm
      [where s = crowded and org = 1 and res = full_request and env = calm]
  by (simp add: scenario_defs racing_def foreign_def older_def R3_def crowded_def crowded3_def
      full_request_def handler_defs)




text \<open>
  C4 (as amended). The linking loop (lines 144-152) runs each insert in an atomic block of
  its own and never lets an \<^verbatim>\<open>IntegrityError\<close> out, whether the insert raised it
  for a pair that is already linked or for any other reason. When every insert either
  succeeds or fails with \<^verbatim>\<open>IntegrityError\<close>, and the projects have distinct
  primary keys, the loop returns exactly the projects whose insert succeeded, in order;
  the link table grows by one row per returned project; and the trace shows, for each
  project in turn, the block entered, the insert, and the block committed when the insert
  succeeded and rolled back when it failed. When the insert for a project fails with an
  exception that is not an \<^verbatim>\<open>IntegrityError\<close>, that exception is the outcome: the
  blocks before it stay committed with their rows, the failing block is rolled back and
  leaves no row, and no later insert is attempted.
\<close>

theorem link_projects_conflicts:
  fixes env r ps new s
  defines "fault \<equiv> \<lambda>p. link_fault env (project_id p) (release_id r)"
  defines "fresh \<equiv> \<lambda>p. link_fault env (project_id p) (release_id r) = None \<and>
       (project_id p, release_id r) \<notin> set (release_projects s)"
  defines "block \<equiv> \<lambda>p. [AtomicEntered, LinkInsert (project_id p) (release_id r),
       if link_fault env (project_id p) (release_id r) = None \<and>
          (project_id p, release_id r) \<notin> set (release_projects s)
       then AtomicCommitted else AtomicRolledBack]"
  shows "fst (link_projects env r ps new s) \<noteq> Inl IntegrityError \<and>
   ((\<forall>p \<in> set ps. fault p = None \<or> fault p = Some IntegrityError) \<and>
    distinct (map project_id ps) \<longrightarrow>
      link_projects env r ps new s =
        (Inr (new @ filter fresh ps),
         s\<lparr>release_projects :=
              release_projects s @ map (\<lambda>p. (project_id p, release_id r)) (filter fresh ps),
            log := log s @ concat (map block ps)\<rparr>)) \<and>
   (\<forall>pre p rest e.
      ps = pre @ p # rest \<and> (\<forall>q \<in> set pre. fault q = None \<or> fault q = Some IntegrityError) \<and>
      distinct (map project_id pre) \<and> fault p = Some e \<and> e \<noteq> IntegrityError \<longrightarrow>
      link_projects env r ps new s =
        (Inl e,
         s\<lparr>release_projects :=
              release_projects s @ map (\<lambda>p. (project_id p, release_id r)) (filter fresh pre),
            log := log s @ concat (map block pre) @
              [AtomicEntered, LinkInsert (project_id p) (release_id r), AtomicRolledBack]\<rparr>))"
proof -
  have fresh: "fresh = linkable env s r"
    by (intro ext) (simp add: fresh_def linkable_def)
  have block: "block = (\<lambda>p. link_events (linkable env s r p) r p)"
    by (intro ext) (simp add: block_def link_events_def linkable_def)
  have key: "(\<lambda>p. (project_id p, release_id r)) = link_key r"
    by (intro ext) (simp add: link_key_def)
  have quiet: "(fault p = None \<or> fault p = Some IntegrityError) = quiet_link env r p" for p
    by (simp add: fault_def quiet_link_def)
  have shape: "emit es (add_links ks s) =
      s\<lparr>release_projects := release_projects s @ ks, log := log s @ es\<rparr>" for es ks
    by (simp add: emit_def add_links_def)
  show ?thesis
  proof (intro conjI allI impI)
    show "fst (link_projects env r ps new s) \<noteq> Inl IntegrityError"
      by (rule link_projects_no_IntegrityError)
  next
    assume "(\<forall>p \<in> set ps. fault p = None \<or> fault p = Some IntegrityError) \<and>
      distinct (map project_id ps)"
    then have "(\<forall>p \<in> set ps. quiet_link env r p) \<and> distinct (map project_id ps)"
      unfolding quiet .
    then have "link_projects env r ps new s =
       (Inr (new @ filter (linkable env s r) ps),
        emit (concat (map (\<lambda>p. link_events (linkable env s r p) r p) ps))
          (add_links (map (link_key r) (filter (linkable env s r) ps)) s))"
      by (simp add: link_projects_quiet)
    then show "link_projects env r ps new s =
        (Inr (new @ filter fresh ps),
         s\<lparr>release_projects :=
              release_projects s @ map (\<lambda>p. (project_id p, release_id r)) (filter fresh ps),
            log := log s @ concat (map block ps)\<rparr>)"
      by (simp only: fresh block key shape)
  next
    fix pre p rest e
    assume a: "ps = pre @ p # rest \<and>
      (\<forall>q \<in> set pre. fault q = None \<or> fault q = Some IntegrityError) \<and>
      distinct (map project_id pre) \<and> fault p = Some e \<and> e \<noteq> IntegrityError"
    then have q: "\<forall>q \<in> set pre. quiet_link env r q" and d: "distinct (map project_id pre)"
      and f: "link_fault env (project_id p) (release_id r) = Some e" and n: "e \<noteq> IntegrityError"
      and ps: "ps = pre @ p # rest"
      by (simp_all add: quiet_link_def fault_def)
    have "link_projects env r (pre @ p # rest) new s =
       link_projects env r (p # rest) (new @ filter (linkable env s r) pre)
         (emit (concat (map (\<lambda>p. link_events (linkable env s r p) r p) pre))
            (add_links (map (link_key r) (filter (linkable env s r) pre)) s))"
      using q d by (rule link_projects_append)
    also have "\<dots> =
       (Inl e, emit (link_events False r p)
         (emit (concat (map (\<lambda>p. link_events (linkable env s r p) r p) pre))
            (add_links (map (link_key r) (filter (linkable env s r) pre)) s)))"
      using f n by (rule link_projects_fault)
    finally have "link_projects env r ps new s =
       (Inl e, emit (concat (map (\<lambda>p. link_events (linkable env s r p) r p) pre) @
                     link_events False r p)
            (add_links (map (link_key r) (filter (linkable env s r) pre)) s))"
      by (simp only: ps emit_emit)
    then show "link_projects env r ps new s =
        (Inl e,
         s\<lparr>release_projects :=
              release_projects s @ map (\<lambda>p. (project_id p, release_id r)) (filter fresh pre),
            log := log s @ concat (map block pre) @
              [AtomicEntered, LinkInsert (project_id p) (release_id r), AtomicRolledBack]\<rparr>)"
      by (simp add: fresh block key shape link_events_def)
  qed
qed

text \<open>
  Release 1.0 is already linked to \<open>p1\<close>: linking \<open>p1\<close> and \<open>p2\<close> reports
  \<open>p2\<close> only. An \<^verbatim>\<open>IntegrityError\<close> for \<open>p2\<close>, which is not linked, is passed
  over and \<open>p1\<close> and \<open>p3\<close> are reported. With another failure for \<open>p2\<close>, the
  link to \<open>p1\<close> stays, the failure comes out and \<open>p3\<close> is not attempted.
\<close>

theorem link_projects_conflicts_witness:
  "link_fault calm (project_id P1) (release_id R1) = None \<and>
   link_fault calm (project_id P2) (release_id R1) = None \<and>
   distinct (map project_id [P1, P2]) \<and>
   release_projects store1 = [(1, 1)] \<and>
   link_projects calm R1 [P1, P2] [] store1 =
     (Inr [P2],
      store1\<lparr>release_projects := [(1, 1), (2, 1)],
             log := [AtomicEntered, LinkInsert 1 1, AtomicRolledBack,
                     AtomicEntered, LinkInsert 2 1, AtomicCommitted]\<rparr>) \<and>
   link_fault strict (project_id P1) (release_id R1) = None \<and>
   link_fault strict (project_id P2) (release_id R1) = Some IntegrityError \<and>
   release_projects store3 = [] \<and>
   link_projects strict R1 [P1, P2, P3] [] store3 =
     (Inr [P1, P3],
      store3\<lparr>release_projects := [(1, 1), (3, 1)],
             log := [AtomicEntered, LinkInsert 1 1, AtomicCommitted,
                     AtomicEntered, LinkInsert 2 1, AtomicRolledBack,
                     AtomicEntered, LinkInsert 3 1, AtomicCommitted]\<rparr>) \<and>
   link_fault flaky (project_id P1) (release_id R1) = None \<and>
   link_fault flaky (project_id P2) (release_id R1) = Some (Failure ''db'') \<and>
   Failure ''db'' \<noteq> IntegrityError \<and>
   link_projects flaky R1 [P1, P2, P3] [] store3 =
     (Inl (Failure ''db''),
      store3\<lparr>release_projects := [(1, 1)],
             log := [AtomicEntered, LinkInsert 1 1, AtomicCommitted,
                     AtomicEntered, LinkInsert 2 1, AtomicRolledBack]\<rparr>)"
proof -
  have fc: "link_fault calm i j = None" for i j by (simp add: calm_def)
  have fs: "link_fault strict (project_id P1) (release_id R1) = None"
    "link_fault strict (project_id P2) (release_id R1) = Some IntegrityError"
    "link_fault strict (project_id P3) (release_id R1) = None"
    by (simp_all add: strict_def calm_def P1_def P2_def P3_def)
  have ff: "link_fault flaky (project_id P1) (release_id R1) = None"
    "link_fault flaky (project_id P2) (release_id R1) = Some (Failure ''db'')"
    by (simp_all add: flaky_def calm_def P1_def P2_def)
  have d2: "distinct (map project_id [P1, P2])" and d3: "distinct (map project_id [P1, P2, P3])"
    and d1: "distinct (map project_id [P1])"
    by (simp_all add: P1_def P2_def P3_def)
  have ids: "project_id P1 = 1" "project_id P2 = 2" "project_id P3 = 3" "release_id R1 = 1"
    by (simp_all add: P1_def P2_def P3_def R1_def)
  have t1: "release_projects store1 = [(1, 1)]" "log store1 = []"
    and t3: "release_projects store3 = []" "log store3 = []"
    by (simp_all add: store1_def store3_def store0_def)
  have fsn: "link_fault strict i j = (if i = 2 then Some IntegrityError else None)" for i j
    by (simp add: strict_def calm_def)
  have ffn: "link_fault flaky i j = (if i = 2 then Some (Failure ''db'') else None)" for i j
    by (simp add: flaky_def calm_def)
  have qa: "(\<forall>p \<in> set [P1, P2]. link_fault calm (project_id p) (release_id R1) = None \<or>
        link_fault calm (project_id p) (release_id R1) = Some IntegrityError) \<and>
      distinct (map project_id [P1, P2])"
    using d2 by (simp add: fc)
  have qb: "(\<forall>p \<in> set [P1, P2, P3]. link_fault strict (project_id p) (release_id R1) = None \<or>
        link_fault strict (project_id p) (release_id R1) = Some IntegrityError) \<and>
      distinct (map project_id [P1, P2, P3])"
    using d3 by (simp add: fs)
  have qc: "[P1, P2, P3] = [P1] @ P2 # [P3] \<and>
      (\<forall>q \<in> set [P1]. link_fault flaky (project_id q) (release_id R1) = None \<or>
        link_fault flaky (project_id q) (release_id R1) = Some IntegrityError) \<and>
      distinct (map project_id [P1]) \<and>
      link_fault flaky (project_id P2) (release_id R1) = Some (Failure ''db'') \<and>
      Failure ''db'' \<noteq> IntegrityError"
    using d1 by (simp add: ff)
  note ta = link_projects_conflicts [where env = calm and r = R1 and ps = "[P1, P2]"
      and new = "[]" and s = store1, THEN conjunct2, THEN conjunct1, rule_format, OF qa]
  note tb = link_projects_conflicts [where env = strict and r = R1 and ps = "[P1, P2, P3]"
      and new = "[]" and s = store3, THEN conjunct2, THEN conjunct1, rule_format, OF qb]
  note tc = link_projects_conflicts [where env = flaky and r = R1 and ps = "[P1, P2, P3]"
      and new = "[]" and s = store3, THEN conjunct2, THEN conjunct2, rule_format, OF qc]
  from ta have wa: "link_projects calm R1 [P1, P2] [] store1 =
     (Inr [P2],
      store1\<lparr>release_projects := [(1, 1), (2, 1)],
             log := [AtomicEntered, LinkInsert 1 1, AtomicRolledBack,
                     AtomicEntered, LinkInsert 2 1, AtomicCommitted]\<rparr>)"
    by (simp add: fc ids t1 del: link_projects.simps)
  from tb have wb: "link_projects strict R1 [P1, P2, P3] [] store3 =
     (Inr [P1, P3],
      store3\<lparr>release_projects := [(1, 1), (3, 1)],
             log := [AtomicEntered, LinkInsert 1 1, AtomicCommitted,
                     AtomicEntered, LinkInsert 2 1, AtomicRolledBack,
                     AtomicEntered, LinkInsert 3 1, AtomicCommitted]\<rparr>)"
    by (simp add: fsn ids t3 del: link_projects.simps)
  from tc have wc: "link_projects flaky R1 [P1, P2, P3] [] store3 =
     (Inl (Failure ''db''),
      store3\<lparr>release_projects := [(1, 1)],
             log := [AtomicEntered, LinkInsert 1 1, AtomicCommitted,
                     AtomicEntered, LinkInsert 2 1, AtomicRolledBack]\<rparr>)"
    by (simp add: ffn ids t3 del: link_projects.simps)
  from fc fs ff d2 t1 t3 wa wb wc show ?thesis by simp
qed

text \<open>
  C4 as stated fails: no link exists, so the \<^verbatim>\<open>IntegrityError\<close> of the insert for
  \<open>p2\<close> is not a duplicate-key failure, and yet it does not propagate: the call
  answers 201 and \<open>p2\<close> is left unlinked.
\<close>

theorem link_projects_conflicts_counterexample:
  "release_projects store0 = [] \<and>
   ReleaseProject_create strict store0 P2 R1 = Inl IntegrityError \<and>
   fst (link_projects strict R1 [P1, P2] [] store0) = Inr [P1] \<and>
   fst (post strict store0 1 (Valid (request ''1.0'' None [''p1'', ''p2'']))) =
     Inr (Response (Serialized R1) 201) \<and>
   release_projects (snd (post strict store0 1 (Valid (request ''1.0'' None [''p1'', ''p2''])))) =
     [(1, 1)]"
  by (simp add: scenario_defs strict_def handler_defs)

text \<open>
  C5. The retry policy makes at most \<open>m\<close> attempts. When every attempt finds the
  lock unavailable it stops after \<open>m\<close> attempts with LockTimeout; when an attempt
  fails in any other way it stops at that attempt with that failure; when an attempt
  within the bound obtains the lock after unavailable ones, it returns the lock. In the
  handler the
  bound is 10: for an absent release and a lock that is never available the call ends
  with LockTimeout after ten attempts and creates nothing, and a lock service that fails
  otherwise ends the call at the first attempt.
\<close>

theorem lock_retry_bounded:
  "snd (withRetry m operation 0) \<le> m \<and>
   ((\<forall>j < m. operation j = Inl LockUnavailable) \<longrightarrow>
      withRetry m operation 0 = (Inl LockTimeout, m)) \<and>
   (\<forall>k e. k < m \<and> (\<forall>j < k. operation j = Inl LockUnavailable) \<and>
          operation k = Inl e \<and> e \<noteq> LockUnavailable \<longrightarrow>
      withRetry m operation 0 = (Inl e, Suc k)) \<and>
   (\<forall>k v. k < m \<and> (\<forall>j < k. operation j = Inl LockUnavailable) \<and> operation k = Inr v \<longrightarrow>
      withRetry m operation 0 = (Inr v, Suc k)) \<and>
   (invalid_projects s org res = {} \<and>
    Release_filter_first (releases s) org (result_version res) = None \<and>
    (\<forall>i. lock_outcome env (org, result_version res) i = Some LockUnavailable) \<longrightarrow>
      post env s org (Valid res) =
        (Inl LockTimeout,
         emit (replicate 10 (LockAttempt (Lock (org, result_version res) 5))) (raced env s))) \<and>
   (\<forall>e. invalid_projects s org res = {} \<and>
    Release_filter_first (releases s) org (result_version res) = None \<and>
    lock_outcome env (org, result_version res) 0 = Some e \<and> e \<noteq> LockUnavailable \<longrightarrow>
      post env s org (Valid res) =
        (Inl e, emit [LockAttempt (Lock (org, result_version res) 5)] (raced env s)))"
proof (intro conjI allI impI)
  show "snd (withRetry m operation 0) \<le> m"
    using withRetry_bound [of m operation 0] by simp
next
  assume "\<forall>j < m. operation j = Inl LockUnavailable"
  then show "withRetry m operation 0 = (Inl LockTimeout, m)"
    using withRetry_exhausted [of 0 m operation] by simp
next
  fix k e
  assume "k < m \<and> (\<forall>j < k. operation j = Inl LockUnavailable) \<and>
          operation k = Inl e \<and> e \<noteq> LockUnavailable"
  then show "withRetry m operation 0 = (Inl e, Suc k)"
    using withRetry_other [of k m 0 operation e] by simp
next
  fix k v
  assume "k < m \<and> (\<forall>j < k. operation j = Inl LockUnavailable) \<and> operation k = Inr v"
  then show "withRetry m operation 0 = (Inr v, Suc k)"
    using withRetry_acquired [of k m 0 operation v] by simp
next
  assume a: "invalid_projects s org res = {} \<and>
    Release_filter_first (releases s) org (result_version res) = None \<and>
    (\<forall>i. lock_outcome env (org, result_version res) i = Some LockUnavailable)"
  then have "\<forall>j. 0 \<le> j \<and> j < 0 + 10 \<longrightarrow>
      acquire env (Lock (org, result_version res) 5) j = Inl LockUnavailable"
    by (simp add: acquire_def)
  then have "withRetry 10 (acquire env (Lock (org, result_version res) 5)) 0 =
      (Inl LockTimeout, 0 + 10)"
    by (rule withRetry_exhausted)
  with a show "post env s org (Valid res) =
        (Inl LockTimeout,
         emit (replicate 10 (LockAttempt (Lock (org, result_version res) 5))) (raced env s))"
    by (simp add: post_lookup_failed goc_lock_failed)
next
  fix e
  assume a: "invalid_projects s org res = {} \<and>
    Release_filter_first (releases s) org (result_version res) = None \<and>
    lock_outcome env (org, result_version res) 0 = Some e \<and> e \<noteq> LockUnavailable"
  then have "withRetry 10 (acquire env (Lock (org, result_version res) 5)) 0 = (Inl e, Suc 0)"
    by (simp add: withRetry_numeral acquire_def)
  with a show "post env s org (Valid res) =
        (Inl e, emit [LockAttempt (Lock (org, result_version res) 5)] (raced env s))"
    by (simp add: post_lookup_failed goc_lock_failed)
qed

text \<open>
  A lock that stays held, a lock that is held twice before the service fails, a
  service that fails at once, and a lock that is held twice and then obtained.
\<close>

theorem lock_retry_bounded_witness:
  "snd (withRetry 10 (acquire busy (Lock (1, ''1.0'') 5)) 0) \<le> 10 \<and>
   invalid_projects store0 1 (request ''1.0'' None [''p1'']) = {} \<and>
   Release_filter_first (releases store0) 1 ''1.0'' = None \<and>
   lock_outcome busy (1, ''1.0'') = (\<lambda>i. Some LockUnavailable) \<and>
   withRetry 10 (acquire busy (Lock (1, ''1.0'') 5)) 0 = (Inl LockTimeout, 10) \<and>
   post busy store0 1 (Valid (request ''1.0'' None [''p1''])) =
     (Inl LockTimeout, emit (replicate 10 (LockAttempt (Lock (1, ''1.0'') 5))) store0) \<and>
   acquire jammed (Lock (1, ''1.0'') 5) 0 = Inl LockUnavailable \<and>
   acquire jammed (Lock (1, ''1.0'') 5) 1 = Inl LockUnavailable \<and>
   acquire jammed (Lock (1, ''1.0'') 5) 2 = Inl (Failure ''redis'') \<and>
   withRetry 10 (acquire jammed (Lock (1, ''1.0'') 5)) 0 = (Inl (Failure ''redis''), 3) \<and>
   lock_outcome broken (1, ''1.0'') 0 = Some (Failure ''redis'') \<and>
   post broken store0 1 (Valid (request ''1.0'' None [''p1''])) =
     (Inl (Failure ''redis''), emit [LockAttempt (Lock (1, ''1.0'') 5)] store0) \<and>
   acquire contended (Lock (1, ''1.0'') 5) 0 = Inl LockUnavailable \<and>
   acquire contended (Lock (1, ''1.0'') 5) 1 = Inl LockUnavailable \<and>
   acquire contended (Lock (1, ''1.0'') 5) 2 = Inr (Lock (1, ''1.0'') 5) \<and>
   withRetry 10 (acquire contended (Lock (1, ''1.0'') 5)) 0 = (Inr (Lock (1, ''1.0'') 5), 3) \<and>
   fst (post contended store0 1 (Valid (request ''1.0'' None [''p1'']))) =
     Inr (Response (Serialized R1) 201) \<and>
   log (snd (post contended store0 1 (Valid (request ''1.0'' None [''p1''])))) =
     replicate 3 (LockAttempt (Lock (1, ''1.0'') 5)) @
     [LockAcquired (Lock (1, ''1.0'') 5), ReleaseQueried 1 ''1.0'', ReleaseInserted R1,
      LockReleased (Lock (1, ''1.0'') 5), AtomicEntered, LinkInsert 1 1, AtomicCommitted]"
proof -
  let ?l = "Lock (1, ''1.0'') 5"
  let ?res = "request ''1.0'' None [''p1'']"
  note held =
    lock_retry_bounded
      [where m = 10 and operation = "acquire busy ?l" and s = store0
         and org = 1 and res = ?res and env = busy]
  note fails =
    lock_retry_bounded
      [where m = 10 and operation = "acquire jammed ?l" and s = store0
         and org = 1 and res = ?res and env = broken]
  have v: "result_version ?res = ''1.0''" by (simp add: request_def)
  have inv: "invalid_projects store0 1 ?res = {}"
    by (simp add: scenario_defs invalid_projects_def Project_filter_def)
  have absent: "Release_filter_first (releases store0) 1 ''1.0'' = None"
    by (simp add: store0_def Release_filter_first_def)
  have rc: "raced busy store0 = store0" "raced broken store0 = store0"
    by (simp_all add: scenario_defs broken_def raced_def)
  have b: "lock_outcome busy (1, ''1.0'') = (\<lambda>i. Some LockUnavailable)"
    by (simp add: busy_def calm_def)
  then have ab: "\<forall>j < 10. acquire busy ?l j = Inl LockUnavailable"
    by (simp add: acquire_def)
  have j: "acquire jammed ?l 0 = Inl LockUnavailable"
    "acquire jammed ?l 1 = Inl LockUnavailable"
    "acquire jammed ?l 2 = Inl (Failure ''redis'')"
    by (simp_all add: acquire_def jammed_def calm_def)
  have jb: "\<forall>j < 2. acquire jammed ?l j = Inl LockUnavailable"
    by (simp add: acquire_def jammed_def calm_def)
  have br: "lock_outcome broken (1, ''1.0'') 0 = Some (Failure ''redis'')"
    by (simp add: broken_def calm_def)
  from held have c1: "snd (withRetry 10 (acquire busy ?l) 0) \<le> 10" by (rule conjunct1)
  from held ab have c2: "withRetry 10 (acquire busy ?l) 0 = (Inl LockTimeout, 10)" by blast
  from held inv absent b
  have c4: "post busy store0 1 (Valid ?res) =
     (Inl LockTimeout, emit (replicate 10 (LockAttempt ?l)) store0)"
    by (simp only: v rc) simp
  have c3: "withRetry 10 (acquire jammed ?l) 0 = (Inl (Failure ''redis''), Suc 2)"
    by (rule fails [THEN conjunct2, THEN conjunct2, THEN conjunct1, rule_format])
      (use jb j in simp)
  from fails inv absent br
  have c5: "post broken store0 1 (Valid ?res) =
     (Inl (Failure ''redis''), emit [LockAttempt ?l] store0)"
    by (simp only: v rc) simp
  have k: "acquire contended ?l 0 = Inl LockUnavailable"
    "acquire contended ?l 1 = Inl LockUnavailable"
    "acquire contended ?l 2 = Inr ?l"
    by (simp_all add: acquire_def contended_def calm_def)
  have kb: "\<forall>j < 2. acquire contended ?l j = Inl LockUnavailable"
    by (simp add: acquire_def contended_def calm_def)
  note waits =
    lock_retry_bounded
      [where m = 10 and operation = "acquire contended ?l" and s = store0
         and org = 1 and res = ?res and env = contended]
  have c6: "withRetry 10 (acquire contended ?l) 0 = (Inr ?l, Suc 2)"
    by (rule waits [THEN conjunct2, THEN conjunct2, THEN conjunct2, THEN conjunct1,
          rule_format])
      (use kb k in simp)
  have c7: "fst (post contended store0 1 (Valid ?res)) = Inr (Response (Serialized R1) 201)"
    "log (snd (post contended store0 1 (Valid ?res))) =
       replicate 3 (LockAttempt ?l) @
       [LockAcquired ?l, ReleaseQueried 1 ''1.0'', ReleaseInserted R1, LockReleased ?l,
        AtomicEntered, LinkInsert 1 1, AtomicCommitted]"
    by (simp_all add: scenario_defs contended_def handler_defs)
  from c1 inv absent b c2 c4 j c3 br c5 k c6 c7 show ?thesis by simp
qed

text \<open>
  C6 (as amended). When a requested project slug does not resolve for the organization,
  the handler answers at once with status 400 and the fixed body
  \<^verbatim>\<open>{'projects': ['Invalid project slugs']}\<close>, and the store is the one it
  started from: no lock attempt is logged, no release, link or commit row is written and
  no Activity or notification is emitted. The body does not list the slugs.
\<close>

theorem post_invalid_projects:
  "invalid_projects s org res \<noteq> {} \<Longrightarrow>
   post env s org (Valid res) =
     (Inr (Response (Errors [(''projects'', [''Invalid project slugs''])]) 400), s)"
  by (simp add: post_def)

theorem post_invalid_projects_witness:
  "invalid_projects store0 1 (request ''1.0'' None [''p1'', ''ghost'']) \<noteq> {} \<and>
   post calm store0 1 (Valid (request ''1.0'' None [''p1'', ''ghost''])) =
     (Inr (Response (Errors [(''projects'', [''Invalid project slugs''])]) 400), store0)"
proof -
  have h: "invalid_projects store0 1 (request ''1.0'' None [''p1'', ''ghost'']) \<noteq> {}"
    by (simp add: invalid_projects_def Project_filter_def store0_def request_def P1_def P2_def)
  from h post_invalid_projects [OF h, of calm] show ?thesis by simp
qed

text \<open>
  C6 as stated fails: the requests for the unknown slugs \<open>ghost\<close> and \<open>phantom\<close>
  have different sets of unresolvable slugs and get the same answer, the fixed body, so
  the answer reports neither.
\<close>

theorem post_invalid_projects_counterexample:
  "invalid_projects store0 1 (request ''1.0'' None [''ghost'']) = {''ghost''} \<and>
   invalid_projects store0 1 (request ''1.0'' None [''phantom'']) = {''phantom''} \<and>
   fst (post calm store0 1 (Valid (request ''1.0'' None [''ghost'']))) =
     Inr (Response (Errors [(''projects'', [''Invalid project slugs''])]) 400) \<and>
   fst (post calm store0 1 (Valid (request ''1.0'' None [''phantom'']))) =
     Inr (Response (Errors [(''projects'', [''Invalid project slugs''])]) 400)"
  by (simp add: post_def invalid_projects_def Project_filter_def store0_def request_def
      P1_def P2_def)

text \<open>
  C7. Suppose a call returned the release \<open>r\<close> with status \<open>st\<close>: 201 when it
  created the release, 208 when it found it. Repeating the call in the store it left, in
  any environment, finds \<open>r\<close> by the lock-free lookup with \<open>created = False\<close>,
  leaves the Release table as it is, and can answer only with \<open>r\<close> and status 208;
  and it does answer so when no insert fails other than with \<^verbatim>\<open>IntegrityError\<close>
  and no notification fails.
\<close>

theorem post_repeat:
  assumes "post env s org (Valid res) = (Inr (Response (Serialized r) st), s1)"
  shows "(\<exists>c s'. get_or_create_release env s org res = (Inr (r, c), s') \<and>
                st = (if c then 201 else 208)) \<and>
         get_or_create_release env' s1 org res = (Inr (r, False), s1) \<and>
         releases (snd (post env' s1 org (Valid res))) = releases s1 \<and>
         (\<forall>resp. fst (post env' s1 org (Valid res)) = Inr resp \<longrightarrow>
            resp = Response (Serialized r) 208) \<and>
         ((\<forall>p \<in> set (projects s1). quiet_link env' r p) \<and> (\<forall>a. notify_fault env' a = None) \<longrightarrow>
            fst (post env' s1 org (Valid res)) = Inr (Response (Serialized r) 208))"
proof -
  from post_Serialized [OF assms] obtain c sa new sb u sc where
    inv: "invalid_projects s org res = {}"
    and goc: "get_or_create_release env s org res = (Inr (r, c), sa)"
    and st: "st = (if c then 201 else 208)"
    by blast
  have rel: "releases s1 = releases sa" and prj: "projects s1 = projects s"
    using post_tables [OF inv, of env] assms goc by simp_all
  have found: "Release_filter_first (releases s1) org (result_version res) = Some r"
    using goc_stored [OF goc] rel by simp
  have inv1: "invalid_projects s1 org res = {}"
    using inv prj by (simp add: invalid_projects_def Project_filter_def)
  note fast = goc_fast [OF found, of env']
  have only: "\<forall>resp. fst (post env' s1 org (Valid res)) = Inr resp \<longrightarrow>
            resp = Response (Serialized r) 208"
  proof (intro allI impI)
    fix resp assume a: "fst (post env' s1 org (Valid res)) = Inr resp"
    obtain o2 s2 where lnk:
      "link_projects env' r (Project_filter s1 org (result_projects res)) [] s1 = (o2, s2)"
      by (cases "link_projects env' r (Project_filter s1 org (result_projects res)) [] s1")
    show "resp = Response (Serialized r) 208"
    proof (cases o2)
      case (Inl e)
      with a post_link_failed [OF inv1 fast lnk [unfolded Inl]] show ?thesis by simp
    next
      case (Inr new)
      with a post_valid [OF inv1 fast lnk [unfolded Inr]] show ?thesis
        by (auto split: prod.splits sum.splits)
    qed
  qed
  have returns: "fst (post env' s1 org (Valid res)) = Inr (Response (Serialized r) 208)"
    if q: "\<forall>p \<in> set (projects s1). quiet_link env' r p" and n: "\<forall>a. notify_fault env' a = None"
  proof -
    have "\<forall>p \<in> set (Project_filter s1 org (result_projects res)). quiet_link env' r p"
      using q by (simp add: Project_filter_def)
    from link_projects_returns [OF this] obtain new s2 where lnk:
      "link_projects env' r (Project_filter s1 org (result_projects res)) [] s1 = (Inr new, s2)"
      by blast
    have "\<exists>s3. notify_if_released env' res r new s2 = (Inr (), s3)"
      using n by (simp add: notify_if_released_def notify_projects_quiet split: option.splits)
    with post_valid [OF inv1 fast lnk] show ?thesis by auto
  qed
  from goc st fast post_existing(1) [OF found] only returns show ?thesis by blast
qed

text \<open>Scenario A followed by scenario B.\<close>

theorem post_repeat_witness:
  "post calm store0 1 (Valid (request ''1.0'' None [''p1''])) =
     (Inr (Response (Serialized R1) 201), storeA) \<and>
   quiet_link calm R1 P1 \<and> quiet_link calm R1 P2 \<and>
   get_or_create_release calm storeA 1 (request ''1.0'' None [''p1'']) =
     (Inr (R1, False), storeA) \<and>
   post calm storeA 1 (Valid (request ''1.0'' None [''p1''])) =
     (Inr (Response (Serialized R1) 208),
      emit [AtomicEntered, LinkInsert 1 1, AtomicRolledBack] storeA) \<and>
   releases storeA = [R1]"
proof -
  let ?a = "request ''1.0'' None [''p1'']"
  have first: "post calm store0 1 (Valid ?a) = (Inr (Response (Serialized R1) 201), storeA)"
    by (simp add: scenario_defs storeA_def handler_defs)
  have q: "\<forall>p \<in> set (projects storeA). quiet_link calm R1 p"
    and n: "\<forall>a. notify_fault calm a = None"
    by (simp_all add: scenario_defs storeA_def quiet_link_def)
  have st: "snd (post calm storeA 1 (Valid ?a)) =
      emit [AtomicEntered, LinkInsert 1 1, AtomicRolledBack] storeA"
    by (simp add: scenario_defs storeA_def handler_defs)
  from post_repeat [OF first, of calm] q n st
  have "get_or_create_release calm storeA 1 ?a = (Inr (R1, False), storeA) \<and>
        fst (post calm storeA 1 (Valid ?a)) = Inr (Response (Serialized R1) 208)"
    by blast
  with first q st show ?thesis
    by (simp add: scenario_defs storeA_def prod_eq_iff)
qed

text \<open>
  C8. When the lock-free lookup finds a release, the call leaves the Release table as
  it is, whatever its outcome, and any release it returns is the stored one, with status
  208. A call that answers 208 has written nothing to the Release table, which is the
  table it started from or, on the path through the lock, the table as the racing callers
  left it. A call that answers 201 has appended exactly the returned row, whose ref, url,
  owner, date_started and date_released are those of its own request.
\<close>

theorem post_stored_fields:
  "(\<forall>r0. Release_filter_first (releases s) org (result_version res) = Some r0 \<longrightarrow>
      releases (snd (post env s org (Valid res))) = releases s \<and>
      (\<forall>r st. fst (post env s org (Valid res)) = Inr (Response (Serialized r) st) \<longrightarrow>
         r = r0 \<and> st = 208)) \<and>
   (\<forall>r s'. post env s org (Valid res) = (Inr (Response (Serialized r) 208), s') \<longrightarrow>
      r \<in> set (releases s') \<and>
      releases s' =
        (if Release_filter_first (releases s) org (result_version res) = None
         then raced_releases env (releases s) else releases s)) \<and>
   (\<forall>r s'. post env s org (Valid res) = (Inr (Response (Serialized r) 201), s') \<longrightarrow>
      releases s' = raced_releases env (releases s) @ [r] \<and>
      ref r = result_ref res \<and> url r = result_url res \<and> owner r = result_owner res \<and>
      date_started r = result_dateStarted res \<and> date_released r = result_dateReleased res)"
proof (intro conjI allI impI)
  fix r0 assume a: "Release_filter_first (releases s) org (result_version res) = Some r0"
  show "releases (snd (post env s org (Valid res))) = releases s"
    by (rule post_existing(1) [OF a])
  fix r st assume "fst (post env s org (Valid res)) = Inr (Response (Serialized r) st)"
  from post_existing(2) [OF a this] show "r = r0" and "st = 208" by simp_all
next
  fix r s' assume a: "post env s org (Valid res) = (Inr (Response (Serialized r) 208), s')"
  from post_Serialized [OF a] obtain c s1 where
    inv: "invalid_projects s org res = {}"
    and goc: "get_or_create_release env s org res = (Inr (r, c), s1)"
    and st: "(208::nat) = (if c then 201 else 208)"
    by blast
  from st have c: "\<not> c" by (cases c) simp_all
  have rel: "releases s' = releases s1"
    using post_tables(1) [OF inv, of env] a goc by simp
  from goc_stored [OF goc] rel show "r \<in> set (releases s')"
    by (auto simp: Release_filter_first_def find_Some_iff)
  from goc_releases(1) [OF goc] c rel
  show "releases s' =
        (if Release_filter_first (releases s) org (result_version res) = None
         then raced_releases env (releases s) else releases s)"
    by simp
next
  fix r s' assume a: "post env s org (Valid res) = (Inr (Response (Serialized r) 201), s')"
  from post_Serialized [OF a] obtain c s1 where
    inv: "invalid_projects s org res = {}"
    and goc: "get_or_create_release env s org res = (Inr (r, c), s1)"
    and st: "(201::nat) = (if c then 201 else 208)"
    by blast
  from st have c: c by (cases c) simp_all
  have rel: "releases s' = releases s1"
    using post_tables(1) [OF inv, of env] a goc by simp
  have slow: "Release_filter_first (releases s) org (result_version res) = None"
    using goc_outcome [OF goc] c by auto
  from goc_releases(1) [OF goc] c rel slow
  show "releases s' = raced_releases env (releases s) @ [r]" by simp
  from goc_releases(2) [OF goc c]
  show "ref r = result_ref res" and "url r = result_url res" and "owner r = result_owner res"
    and "date_started r = result_dateStarted res"
    and "date_released r = result_dateReleased res"
    by (simp_all add: release_row_def)
qed

text \<open>
  A request with a release date for the stored, not live release 1.0, and the creation
  of release 2.0.
\<close>

theorem post_stored_fields_witness:
  "Release_filter_first (releases store1) 1 ''1.0'' = Some R1 \<and>
   date_released R1 = None \<and>
   post calm store1 1 (Valid (request ''1.0'' (Some 9) [''p1''])) =
     (Inr (Response (Serialized R1) 208),
      emit [AtomicEntered, LinkInsert 1 1, AtomicRolledBack] store1) \<and>
   releases (snd (post calm store1 1 (Valid (request ''1.0'' (Some 9) [''p1''])))) =
     releases store1 \<and>
   R1 \<in> set (releases store1) \<and>
   post calm store0 1 (Valid (request ''2.0'' (Some 7) [])) =
     (Inr (Response (Serialized R2) 201),
      store0\<lparr>releases := [R2],
              log := [LockAttempt (Lock (1, ''2.0'') 5), LockAcquired (Lock (1, ''2.0'') 5),
                      ReleaseQueried 1 ''2.0'', ReleaseInserted R2,
                      LockReleased (Lock (1, ''2.0'') 5)]\<rparr>) \<and>
   date_released R2 = result_dateReleased (request ''2.0'' (Some 7) [])"
proof -
  let ?b = "request ''1.0'' (Some 9) [''p1'']"
  let ?c = "request ''2.0'' (Some 7) []"
  have found: "Release_filter_first (releases store1) 1 (result_version ?b) = Some R1"
    by (simp add: scenario_defs Release_filter_first_def matches_def)
  then have f: "Release_filter_first (releases store1) 1 ''1.0'' = Some R1"
    by (simp add: request_def)
  have d: "date_released R1 = None" by (simp add: R1_def)
  have p1: "post calm store1 1 (Valid ?b) =
      (Inr (Response (Serialized R1) 208),
       emit [AtomicEntered, LinkInsert 1 1, AtomicRolledBack] store1)"
    by (simp add: scenario_defs handler_defs)
  have p2: "post calm store0 1 (Valid ?c) =
     (Inr (Response (Serialized R2) 201),
      store0\<lparr>releases := [R2],
              log := [LockAttempt (Lock (1, ''2.0'') 5), LockAcquired (Lock (1, ''2.0'') 5),
                      ReleaseQueried 1 ''2.0'', ReleaseInserted R2,
                      LockReleased (Lock (1, ''2.0'') 5)]\<rparr>)"
    by (simp add: scenario_defs handler_defs)
  from post_stored_fields
    [where s = store1 and org = 1 and res = ?b and env = calm,
     THEN conjunct1, rule_format, OF found]
  have r1: "releases (snd (post calm store1 1 (Valid ?b))) = releases store1"
    by (rule conjunct1)
  from post_stored_fields
    [where s = store0 and org = 1 and res = ?c and env = calm,
     THEN conjunct2, THEN conjunct2, rule_format, OF p2]
  have r2: "date_released R2 = result_dateReleased ?c"
    by blast
  from post_stored_fields
    [where s = store1 and org = 1 and res = ?b and env = calm,
     THEN conjunct2, THEN conjunct1, rule_format, OF p1]
  have r3: "R1 \<in> set (releases store1)"
    by (simp add: emit_simps)
  from f d p1 r1 r3 p2 r2 show ?thesis by blast
qed

text \<open>
  C9 (as amended). In the notification loop of a live release, a failure of the
  notification for one project ends the loop and is the outcome of the handler: the
  Activity rows and notifications of the projects before it and its own Activity row
  stay, and nothing is emitted for the projects after it.
\<close>

theorem notify_failure_stops_dispatch:
  assumes "date_released r = Some d"
    and "\<forall>q \<in> set pre. notify_fault env (release_activity (result_version res) d q) = None"
    and "notify_fault env (release_activity (result_version res) d p) = Some e"
  shows "notify_if_released env res r (pre @ p # rest) s =
     (Inl e, emit (concat (map (release_events (result_version res) d) pre) @
                   [ActivityCreated (release_activity (result_version res) d p)]) s)"
  using assms by (simp add: notify_if_released_def notify_projects_stops)

theorem notify_failure_stops_dispatch_witness:
  "date_released R2 = Some 7 \<and>
   notify_fault mute (release_activity ''2.0'' 7 P1) = None \<and>
   notify_fault mute (release_activity ''2.0'' 7 P2) = Some (Failure ''queue'') \<and>
   notify_if_released mute (request ''2.0'' (Some 7) [''p1'', ''p2'', ''p3'']) R2 [P1, P2, P3]
       store3 =
     (Inl (Failure ''queue''),
      store3\<lparr>log := [ActivityCreated (release_activity ''2.0'' 7 P1),
                       NotificationSent (release_activity ''2.0'' 7 P1),
                       ActivityCreated (release_activity ''2.0'' 7 P2)]\<rparr>)"
  using
    notify_failure_stops_dispatch
      [where r = R2 and d = 7 and pre = "[P1]" and p = P2 and rest = "[P3]" and env = mute
         and res = "request ''2.0'' (Some 7) [''p1'', ''p2'', ''p3'']" and s = store3
         and e = "Failure ''queue''"]
  by (simp add: scenario_defs mute_def store3_def handler_defs)

text \<open>
  C9 as stated fails: release 2.0 is live and is newly linked to three projects, the
  notification for the second fails, and the third, whose notification would not fail,
  gets no Activity row.
\<close>

theorem notify_failure_counterexample:
  "fst (post mute store3 1 (Valid (request ''2.0'' (Some 7) [''p1'', ''p2'', ''p3'']))) =
     Inl (Failure ''queue'') \<and>
   release_projects (snd (post mute store3 1
     (Valid (request ''2.0'' (Some 7) [''p1'', ''p2'', ''p3''])))) = [(1, 1), (2, 1), (3, 1)] \<and>
   activities_created (snd (post mute store3 1
     (Valid (request ''2.0'' (Some 7) [''p1'', ''p2'', ''p3''])))) =
     [release_activity ''2.0'' 7 P1, release_activity ''2.0'' 7 P2] \<and>
   notify_fault mute (release_activity ''2.0'' 7 P3) = None"
  by (simp add: scenario_defs mute_def store3_def handler_defs)

text \<open>
  C10. When the lock-free lookup finds a release, replacing the five optional fields
  of the request by any other values changes neither the outcome nor the store the call
  leaves, log included; the Release table stays as it is; and when the stored release has
  no release date, the call writes no Activity row and sends no notification, whatever
  release date the request carries.
\<close>

theorem post_ignores_optional_fields:
  assumes "Release_filter_first (releases s) org (result_version res) = Some r"
  shows "post env s org (Valid (res\<lparr>result_ref := a, result_url := b, result_owner := c,
                                   result_dateStarted := d, result_dateReleased := e\<rparr>)) =
         post env s org (Valid res) \<and>
         releases (snd (post env s org (Valid (res\<lparr>result_ref := a, result_url := b,
            result_owner := c, result_dateStarted := d, result_dateReleased := e\<rparr>)))) =
           releases s \<and>
         (date_released r = None \<longrightarrow>
            activities_created (snd (post env s org (Valid (res\<lparr>result_ref := a,
              result_url := b, result_owner := c, result_dateStarted := d,
              result_dateReleased := e\<rparr>)))) = activities_created s \<and>
            notifications_sent (snd (post env s org (Valid (res\<lparr>result_ref := a,
              result_url := b, result_owner := c, result_dateStarted := d,
              result_dateReleased := e\<rparr>)))) = notifications_sent s)"
proof -
  define res' where "res' = res\<lparr>result_ref := a, result_url := b, result_owner := c,
                                   result_dateStarted := d, result_dateReleased := e\<rparr>"
  have i: "invalid_projects s org res' = invalid_projects s org res"
    by (simp add: invalid_projects_def res'_def)
  have g: "get_or_create_release env s org res' = get_or_create_release env s org res"
    using assms by (simp add: get_or_create_release_def res'_def)
  have p: "result_projects res' = result_projects res"
    by (simp add: res'_def)
  have n: "notify_if_released env res' = notify_if_released env res"
    by (intro ext) (simp add: notify_if_released_def res'_def split: option.splits)
  have c: "attach_commits res' = attach_commits res"
    by (intro ext) (simp add: attach_commits_def res'_def)
  have "post env s org (Valid res') = post env s org (Valid res)"
    unfolding post_def serializer.case i g p n c by (rule refl)
  then have same: "post env s org (Valid (res\<lparr>result_ref := a, result_url := b,
       result_owner := c, result_dateStarted := d, result_dateReleased := e\<rparr>)) =
         post env s org (Valid res)"
    by (simp add: res'_def)
  from same post_existing(1) [OF assms] post_silent [OF goc_fast [OF assms]]
  show ?thesis by simp
qed

text \<open>
  Release 1.0 is stored and not live; a request that carries the release date 9 does
  what the request without one does: it links \<open>p2\<close> and emits nothing.
\<close>

theorem post_ignores_optional_fields_witness:
  "Release_filter_first (releases store1) 1 ''1.0'' = Some R1 \<and>
   date_released R1 = None \<and>
   post calm store1 1 (Valid (request ''1.0'' (Some 9) [''p1'', ''p2''])) =
   post calm store1 1 (Valid (request ''1.0'' None [''p1'', ''p2''])) \<and>
   releases (snd (post calm store1 1 (Valid (request ''1.0'' (Some 9) [''p1'', ''p2''])))) =
     [R1] \<and>
   release_projects (snd (post calm store1 1
     (Valid (request ''1.0'' (Some 9) [''p1'', ''p2''])))) = [(1, 1), (2, 1)] \<and>
   activities_created (snd (post calm store1 1
     (Valid (request ''1.0'' (Some 9) [''p1'', ''p2''])))) = []"
proof -
  let ?a = "request ''1.0'' None [''p1'', ''p2'']"
  have found: "Release_filter_first (releases store1) 1 (result_version ?a) = Some R1"
    by (simp add: scenario_defs Release_filter_first_def matches_def)
  have upd: "?a\<lparr>result_ref := None, result_url := None, result_owner := None,
      result_dateStarted := None, result_dateReleased := Some 9\<rparr> =
      request ''1.0'' (Some 9) [''p1'', ''p2'']"
    by (simp add: request_def)
  have rp: "release_projects (snd (post calm store1 1
     (Valid (request ''1.0'' (Some 9) [''p1'', ''p2''])))) = [(1, 1), (2, 1)]"
    by (simp add: scenario_defs handler_defs)
  note th = post_ignores_optional_fields
      [OF found, where env = calm and a = None and b = None and c = None and d = None
         and e = "Some 9", unfolded upd]
  have d: "date_released R1 = None" by (simp add: R1_def)
  have e0: "activities_created store1 = []"
    by (simp add: scenario_defs activities_created_def)
  have rl: "releases store1 = [R1]" by (simp add: store1_def store0_def)
  have f: "Release_filter_first (releases store1) 1 ''1.0'' = Some R1"
    using found by (simp add: request_def)
  from th have eq: "post calm store1 1 (Valid (request ''1.0'' (Some 9) [''p1'', ''p2''])) =
      post calm store1 1 (Valid (request ''1.0'' None [''p1'', ''p2'']))"
    by (rule conjunct1)
  from th rl
  have r: "releases (snd (post calm store1 1
      (Valid (request ''1.0'' (Some 9) [''p1'', ''p2''])))) = [R1]"
    by (elim conjE) (rule trans)
  from th d
  have "activities_created (snd (post calm store1 1
      (Valid (request ''1.0'' (Some 9) [''p1'', ''p2''])))) = activities_created store1"
    by blast
  then have ac: "activities_created (snd (post calm store1 1
      (Valid (request ''1.0'' (Some 9) [''p1'', ''p2''])))) = []"
    by (rule trans) (rule e0)
  from f d eq r rp ac show ?thesis by blast
qed

end
